theory Spec2Isabelle
  imports Complex_Main "HOL-Library.Word"
begin

section \<open>The host: Lua values, objects and the state\<close>

text \<open>
  \<open>lua_bufflib.c\<close> is a C module for Lua. Its functions receive a \<open>lua_State\<close> and work
  on the Lua stack, on userdata objects and on the registry. The embedding passes the
  state explicitly. A C function that raises a Lua error (\<open>luaL_error\<close>, a failed
  \<open>luaL_checkudata\<close>) returns \<open>Inl\<close> with the error and the state at the moment of the
  raise; a normal return is \<open>Inr\<close>.

  \<open>size_t\<close> is a machine word whose width \<open>'w\<close> is left open (the records take the
  type of sizes as their parameter, instantiated with \<open>'w word\<close> throughout); \<open>+\<close>, \<open>-\<close> and \<open>*\<close> on it
  wrap around as in C. Byte strings are \<open>string\<close>s (lists of 8-bit characters), so
  an embedded zero byte is an ordinary element.
\<close>

text \<open>
  \<open>lua_Number\<close> is the host's number type, a C double in stock Lua. The model embeds it
  in the reals and leaves every conversion from and to it to the host.
\<close>

type_synonym lua_Number = real

datatype lua_value =
    VNil
  | VBoolean bool
  | VNumber lua_Number
  | VString string
  | VTable nat
  | VFunction nat
  | VUserdata nat
  | VThread nat
  | VLightUserdata nat

text \<open>
  A \<open>char *\<close> into a backing store: the inline array \<open>initb\<close> of the Buffer at an address,
  or a block of userdata memory at an address, each with a byte offset.
\<close>

datatype cptr = Initb nat nat | Block nat nat

text \<open>
  \<open>struct Buffer\<close>. The field \<open>size\<close> is \<open>sizeB\<close> here, and the field \<open>L\<close> of the C
  struct is the state the functions below receive as their first argument.
\<close>

record 'sz Buffer =
  ref :: int
  b :: cptr
  sizeB :: 'sz
  n :: 'sz
  initb :: string

text \<open>
  The objects the garbage-collected heap holds, by address: a userdata whose metatable
  is the one registered as \<open>BUFFERTYPE\<close> (a Buffer), a userdata without metatable (a block
  of bytes made by \<open>lua_newuserdata\<close>), a table with its string keys, a C closure of
  \<open>bufflib_stringop\<close> with its one upvalue, and any other function.
\<close>

datatype 'sz obj =
    OBuffer "'sz Buffer"
  | OBlock string
  | OTable "string \<rightharpoonup> lua_value"
  | OStringop lua_value
  | OFunction

text \<open>
  The state. \<open>stack\<close> holds the current C function's frame, index 1 first and the top
  last. \<open>refs\<close> are the integer references of the registry (\<open>luaL_ref\<close>), \<open>registry\<close>
  its string keys and \<open>globals\<close> the global variables.
  \<open>LUAL_BUFFERSIZE\<close> (a macro of \<open>luaconf.h\<close>) and the host's conversions of numbers and
  its formatting of pointers (\<open>%p\<close>) are not part of the module: they are fields of the
  state, and every theorem holds for each value of them.

  The objects of the heap stay at their addresses. Strings are values; what the
  collector does to a string that nothing refers to any more is the subject of \<open>cstr\<close>
  below, and \<open>gc_runs\<close> says whether this host lets its collector run when the module
  allocates. Memory allocation by the host is taken to succeed. Of the values that are
  not Buffers none has a metatable with a \<open>__tostring\<close> field.
\<close>

record 'sz lua_State =
  stack :: "lua_value list"
  heap :: "'sz obj list"
  refs :: "(int \<times> lua_value) list"
  registry :: "string \<rightharpoonup> lua_value"
  globals :: "string \<rightharpoonup> lua_value"
  LUAL_BUFFERSIZE :: 'sz
  number2str :: "lua_Number \<Rightarrow> string"
  integer2number :: "int \<Rightarrow> lua_Number"
  pointer2str :: "nat option \<Rightarrow> string"
  gc_runs :: bool

text \<open>
  \<open>TooLarge\<close> is \<open>luaL_error(L, "buffer too large")\<close>, \<open>TypeError i\<close> the argument
  error of \<open>luaL_checkudata\<close> or \<open>luaL_checkstring\<close> at index \<open>i\<close>, \<open>IndexError\<close> the
  host's error for a field access on a value that is not a table. \<open>Fault\<close> and
  \<open>Unmodelled\<close> are not Lua errors: at \<open>Fault\<close> the C code reads or writes outside an
  object or through a dangling pointer, and its behaviour is undefined; \<open>Unmodelled\<close>
  marks a call the model does not follow.
\<close>

datatype error = TooLarge | TypeError int | IndexError | Fault | Unmodelled

type_synonym 'w size_t = "'w word"

type_synonym 'w state = "'w size_t lua_State"

type_synonym ('a, 'w) result = "(error \<times> 'w state) + ('a \<times> 'w state)"

definition LUA_NOREF :: int where
  "LUA_NOREF = - 2"

definition LUA_REFNIL :: int where
  "LUA_REFNIL = - 1"

definition BUFFERTYPE :: string where
  "BUFFERTYPE = ''bufflib_buffer''"

definition STRINGPREFIX :: string where
  "STRINGPREFIX = ''s_''"

definition STRINGPREFIXLEN :: nat where
  "STRINGPREFIXLEN = 2"

subsection \<open>Memory\<close>

definition obj_at :: "('w::len) state \<Rightarrow> nat \<Rightarrow> 'w size_t obj option" where
  "obj_at L a = (if a < length (heap L) then Some (heap L ! a) else None)"

definition buffer_at :: "('w::len) state \<Rightarrow> nat \<Rightarrow> 'w size_t Buffer option" where
  "buffer_at L a = (case obj_at L a of Some (OBuffer r) \<Rightarrow> Some r | _ \<Rightarrow> None)"

definition set_obj :: "('w::len) state \<Rightarrow> nat \<Rightarrow> 'w size_t obj \<Rightarrow> 'w state" where
  "set_obj L a ob = L\<lparr>heap := (heap L)[a := ob]\<rparr>"

text \<open>The bytes of the object a pointer points into, if it points into one.\<close>

definition region :: "('w::len) state \<Rightarrow> cptr \<Rightarrow> string option" where
  "region L p = (case p of
       Initb a off \<Rightarrow> (case buffer_at L a of Some r \<Rightarrow> Some (initb r) | None \<Rightarrow> None)
     | Block k off \<Rightarrow> (case obj_at L k of Some (OBlock d) \<Rightarrow> Some d | _ \<Rightarrow> None))"

definition offset :: "cptr \<Rightarrow> nat" where
  "offset p = (case p of Initb a off \<Rightarrow> off | Block k off \<Rightarrow> off)"

definition ptr_add :: "cptr \<Rightarrow> nat \<Rightarrow> cptr" where
  "ptr_add p i = (case p of Initb a off \<Rightarrow> Initb a (off + i) | Block k off \<Rightarrow> Block k (off + i))"

text \<open>Reading \<open>len\<close> bytes at a pointer; \<open>None\<close> when the range leaves the object.\<close>

definition read_bytes :: "('w::len) state \<Rightarrow> cptr \<Rightarrow> nat \<Rightarrow> string option" where
  "read_bytes L p len = (case region L p of
       None \<Rightarrow> None
     | Some d \<Rightarrow> if offset p + len \<le> length d then Some (take len (drop (offset p) d)) else None)"

definition set_region :: "('w::len) state \<Rightarrow> cptr \<Rightarrow> string \<Rightarrow> 'w state" where
  "set_region L p d = (case p of
       Initb a off \<Rightarrow> (case buffer_at L a of
                         Some r \<Rightarrow> set_obj L a (OBuffer (r\<lparr>initb := d\<rparr>))
                       | None \<Rightarrow> L)
     | Block k off \<Rightarrow> set_obj L k (OBlock d))"

text \<open>
  \<open>memcpy(dst, src, len)\<close> with the source given as the bytes at \<open>src\<close>: \<open>None\<close> when
  \<open>len\<close> bytes cannot be read from the source or do not fit at the destination.
\<close>

definition memcpy :: "('w::len) state \<Rightarrow> cptr \<Rightarrow> string \<Rightarrow> nat \<Rightarrow> 'w state option" where
  "memcpy L dst src len = (case region L dst of
       None \<Rightarrow> None
     | Some d \<Rightarrow>
         if len \<le> length src \<and> offset dst + len \<le> length d
         then Some (set_region L dst (take (offset dst) d @ take len src @ drop (offset dst + len) d))
         else None)"

subsection \<open>The Lua API the module calls\<close>

definition lua_gettop :: "('w::len) state \<Rightarrow> int" where
  "lua_gettop L = int (length (stack L))"

text \<open>The value at a stack index, \<open>None\<close> for an index outside the frame (\<open>LUA_TNONE\<close>).\<close>

definition index2value :: "('w::len) state \<Rightarrow> int \<Rightarrow> lua_value option" where
  "index2value L i =
     (if 1 \<le> i \<and> i \<le> lua_gettop L then Some (stack L ! nat (i - 1))
      else if i < 0 \<and> - i \<le> lua_gettop L then Some (stack L ! nat (lua_gettop L + i))
      else None)"

definition lua_push :: "('w::len) state \<Rightarrow> lua_value \<Rightarrow> 'w state" where
  "lua_push L v = L\<lparr>stack := stack L @ [v]\<rparr>"

definition lua_pop :: "('w::len) state \<Rightarrow> nat \<Rightarrow> 'w state" where
  "lua_pop L k = L\<lparr>stack := take (length (stack L) - k) (stack L)\<rparr>"

definition lua_pushvalue :: "('w::len) state \<Rightarrow> int \<Rightarrow> 'w state" where
  "lua_pushvalue L i = lua_push L (case index2value L i of Some v \<Rightarrow> v | None \<Rightarrow> VNil)"

text \<open>
  A \<open>const char *\<close> that \<open>lua_tolstring\<close> returned: the bytes of a Lua string, and what
  keeps the string alive. With \<open>None\<close> the string is the value of an argument slot of the
  call, where it stays. With \<open>Some h\<close> the string was made for a conversion, when the
  heap had \<open>h\<close> objects, and once it is popped nothing refers to it.

  The host guarantees the pointer while the string is on the stack. A string that
  nothing refers to is freed when the collector runs, and the host may run it whenever
  the module allocates. With \<open>gc_runs\<close> false the collector does not run during the
  call. With \<open>gc_runs\<close> true it runs at least where userdata is allocated
  (\<open>lua_newuserdata\<close>), so that the pointer to a popped string is dangling as soon as the
  heap has a new object; the model does not follow the collections a host may start
  where a string is made.
\<close>

datatype cstr = CStr string "nat option"

fun bytes :: "cstr \<Rightarrow> string" where
  "bytes (CStr s a) = s"

definition cstr_valid :: "('w::len) state \<Rightarrow> cstr \<Rightarrow> bool" where
  "cstr_valid L p = (case p of
       CStr s None \<Rightarrow> True
     | CStr s (Some h) \<Rightarrow> (if gc_runs L then length (heap L) = h else True))"

text \<open>
  \<open>memcpy(dst, src, len)\<close> with the source given by such a pointer: \<open>None\<close> also when
  the pointer is dangling.
\<close>

definition memcpy_str :: "('w::len) state \<Rightarrow> cptr \<Rightarrow> cstr \<Rightarrow> nat \<Rightarrow> 'w state option" where
  "memcpy_str L dst src len =
     (if cstr_valid L src then memcpy L dst (bytes src) len else None)"

text \<open>
  \<open>lua_newuserdata(L, sz)\<close>: a new block of \<open>sz\<close> bytes at a fresh address, pushed on
  the stack. C leaves the bytes of the block indeterminate; the module reads only bytes
  it has written, and the model fills the block with zero bytes.
  The host's allocator is taken to succeed.
\<close>

definition lua_newuserdata :: "('w::len) state \<Rightarrow> nat \<Rightarrow> cptr \<times> 'w state" where
  "lua_newuserdata L sz =
     (let k = length (heap L)
      in (Block k 0, L\<lparr>heap := heap L @ [OBlock (replicate sz (CHR 0x00))],
                       stack := stack L @ [VUserdata k]\<rparr>))"

text \<open>
  \<open>luaL_ref(L, LUA_REGISTRYINDEX)\<close> pops the top of the stack and stores it under an
  integer reference that is not in use; \<open>luaL_unref\<close> frees a reference.
\<close>

definition fresh_ref :: "(int \<times> lua_value) list \<Rightarrow> int" where
  "fresh_ref rs = fold max (map fst rs) 0 + 1"

definition luaL_ref :: "('w::len) state \<Rightarrow> (int \<times> 'w state) option" where
  "luaL_ref L = (case rev (stack L) of
       [] \<Rightarrow> None
     | v # rest \<Rightarrow>
         if v = VNil then Some (LUA_REFNIL, lua_pop L 1)
         else (let r = fresh_ref (refs L)
               in Some (r, (lua_pop L 1)\<lparr>refs := (r, v) # refs L\<rparr>)))"

definition luaL_unref :: "('w::len) state \<Rightarrow> int \<Rightarrow> 'w state" where
  "luaL_unref L r = (if 0 \<le> r then L\<lparr>refs := filter (\<lambda>e. fst e \<noteq> r) (refs L)\<rparr> else L)"

section \<open>The buffer engine\<close>

text \<open>\<open>#define addsize(B,s) ((B)->n += (s))\<close>\<close>

definition addsize :: "('w::len) state \<Rightarrow> nat \<Rightarrow> 'w word \<Rightarrow> 'w state" where
  "addsize L B s = (case buffer_at L B of
       Some r \<Rightarrow> set_obj L B (OBuffer (r\<lparr>n := n r + s\<rparr>))
     | None \<Rightarrow> L)"

text \<open>\<open>#define buff_unref(L, B) if ((B)->ref != LUA_NOREF) luaL_unref(L, LUA_REGISTRYINDEX, (B)->ref)\<close>\<close>

definition buff_unref :: "('w::len) state \<Rightarrow> nat \<Rightarrow> 'w state" where
  "buff_unref L B = (case buffer_at L B of
       Some r \<Rightarrow> if ref r \<noteq> LUA_NOREF then luaL_unref L (ref r) else L
     | None \<Rightarrow> L)"

text \<open>
  \<open>prepbuffsize(B, sz)\<close>: the pointer \<open>&B->b[B->n]\<close>, after making room for \<open>sz\<close> bytes.
\<close>

definition prepbuffsize :: "('w::len) state \<Rightarrow> nat \<Rightarrow> 'w word \<Rightarrow> (cptr, 'w) result" where
  "prepbuffsize L B sz = (case buffer_at L B of
       None \<Rightarrow> Inl (Fault, L)
     | Some r \<Rightarrow>
         if sizeB r - n r < sz then
           (let newsize = sizeB r * 2;
                newsize = (if newsize - n r < sz then n r + sz else newsize)
            in if newsize < n r \<or> newsize - n r < sz then Inl (TooLarge, L)
               else
                 (case lua_newuserdata L (unat newsize) of (newbuff, L1) \<Rightarrow>
                   (case read_bytes L1 (b r) (unat (n r)) of
                      None \<Rightarrow> Inl (Fault, L1)
                    | Some old \<Rightarrow>
                        (case memcpy L1 newbuff old (unat (n r)) of
                           None \<Rightarrow> Inl (Fault, L1)
                         | Some L2 \<Rightarrow>
                             (case luaL_ref (buff_unref L2 B) of
                                None \<Rightarrow> Inl (Fault, L2)
                              | Some (rf, L3) \<Rightarrow>
                                  Inr (ptr_add newbuff (unat (n r)),
                                       set_obj L3 B
                                         (OBuffer (r\<lparr>ref := rf, b := newbuff, sizeB := newsize\<rparr>))))))))
         else Inr (ptr_add (b r) (unat (n r)), L))"

text \<open>\<open>buffinit(L, B)\<close>\<close>

definition buffinit :: "('w::len) state \<Rightarrow> nat \<Rightarrow> 'w state" where
  "buffinit L B = (case buffer_at L B of
       Some r \<Rightarrow> set_obj L B (OBuffer (r\<lparr>b := Initb B 0, n := 0, sizeB := LUAL_BUFFERSIZE L,
                                          ref := LUA_NOREF\<rparr>))
     | None \<Rightarrow> L)"

text \<open>
  \<open>newbuffer(L)\<close>: a new userdata of \<open>sizeof(Buffer)\<close> bytes with the Buffer metatable,
  pushed on the stack and initialised. The fields are indeterminate before \<open>buffinit\<close>
  sets them; the inline array has \<open>LUAL_BUFFERSIZE\<close> bytes.
\<close>

definition newbuffer :: "('w::len) state \<Rightarrow> nat \<times> 'w state" where
  "newbuffer L =
     (let B = length (heap L);
          raw = \<lparr>ref = 0, b = Initb B 0, sizeB = 0, n = 0,
                 initb = replicate (unat (LUAL_BUFFERSIZE L)) (CHR 0x00)\<rparr>;
          L1 = L\<lparr>heap := heap L @ [OBuffer raw], stack := stack L @ [VUserdata B]\<rparr>
      in (B, buffinit L1 B))"

text \<open>
  \<open>getbuffer(L, i)\<close> is \<open>luaL_checkudata(L, i, BUFFERTYPE)\<close> and \<open>isbuffer(L, i)\<close> is
  \<open>luaL_testudata(L, i, BUFFERTYPE) != NULL\<close>: the value at the index is a userdata
  whose metatable is the Buffer metatable.
\<close>

definition getbuffer :: "('w::len) state \<Rightarrow> int \<Rightarrow> error + nat" where
  "getbuffer L i = (case index2value L i of
       Some (VUserdata a) \<Rightarrow> (case buffer_at L a of Some r \<Rightarrow> Inr a | None \<Rightarrow> Inl (TypeError i))
     | _ \<Rightarrow> Inl (TypeError i))"

definition isbuffer :: "('w::len) state \<Rightarrow> int \<Rightarrow> bool" where
  "isbuffer L i = (case getbuffer L i of Inr a \<Rightarrow> True | Inl e \<Rightarrow> False)"

text \<open>\<open>lua_pushlstring(L, s, len)\<close> with \<open>s\<close> a pointer into a backing store.\<close>

definition lua_pushlstring :: "('w::len) state \<Rightarrow> cptr \<Rightarrow> nat \<Rightarrow> 'w state option" where
  "lua_pushlstring L p len = (case read_bytes L p len of
       None \<Rightarrow> None
     | Some s \<Rightarrow> Some (lua_push L (VString s)))"

subsection \<open>Conversion to a string\<close>

definition luaL_typename :: "lua_value option \<Rightarrow> string" where
  "luaL_typename v = (case v of
       None \<Rightarrow> ''no value''
     | Some VNil \<Rightarrow> ''nil''
     | Some (VBoolean x) \<Rightarrow> ''boolean''
     | Some (VNumber x) \<Rightarrow> ''number''
     | Some (VString x) \<Rightarrow> ''string''
     | Some (VTable x) \<Rightarrow> ''table''
     | Some (VFunction x) \<Rightarrow> ''function''
     | Some (VUserdata x) \<Rightarrow> ''userdata''
     | Some (VThread x) \<Rightarrow> ''thread''
     | Some (VLightUserdata x) \<Rightarrow> ''userdata'')"

definition lua_topointer :: "lua_value option \<Rightarrow> nat option" where
  "lua_topointer v = (case v of
       Some (VTable x) \<Rightarrow> Some x
     | Some (VFunction x) \<Rightarrow> Some x
     | Some (VUserdata x) \<Rightarrow> Some x
     | Some (VThread x) \<Rightarrow> Some x
     | Some (VLightUserdata x) \<Rightarrow> Some x
     | _ \<Rightarrow> None)"

text \<open>
  \<open>luaL_tolstring(L, idx, &len)\<close> pushes the string form of the value at \<open>idx\<close> and
  returns the pointer to its bytes with its length. \<open>luaL_callmeta(L, idx, "__tostring")\<close>
  finds a \<open>__tostring\<close> metamethod for Buffers only (no other value of the model has
  one), and there it is \<open>bufflib_tostring\<close>, which pushes the \<open>n\<close> bytes at \<open>b\<close> as a new
  string. For a string \<open>lua_pushvalue\<close> pushes the argument itself, so the pointer is
  into the string of the argument slot; for every other value the string pushed is a
  new one.
\<close>

definition luaL_tolstring :: "('w::len) state \<Rightarrow> int \<Rightarrow> (cstr \<times> 'w word, 'w) result" where
  "luaL_tolstring L idx =
     (let v = index2value L idx;
          keeper = (case v of Some (VString s) \<Rightarrow> None | _ \<Rightarrow> Some (length (heap L)));
          text = (case getbuffer L idx of
                    Inr B \<Rightarrow> (case buffer_at L B of
                                 Some r \<Rightarrow> read_bytes L (b r) (unat (n r))
                               | None \<Rightarrow> None)
                  | Inl e \<Rightarrow>
                      (case v of
                         Some (VNumber x) \<Rightarrow> Some (number2str L x)
                       | Some (VString s) \<Rightarrow> Some s
                       | Some (VBoolean x) \<Rightarrow> Some (if x then ''true'' else ''false'')
                       | Some VNil \<Rightarrow> Some ''nil''
                       | _ \<Rightarrow> Some (luaL_typename v @ '': '' @ pointer2str L (lua_topointer v))))
      in case text of
           None \<Rightarrow> Inl (Fault, L)
         | Some s \<Rightarrow> Inr ((CStr s keeper, word_of_nat (length s)), lua_push L (VString s)))"

text \<open>
  \<open>#define tolstring(L, i, l) luaL_tolstring(L, i, l); lua_pop(L, 1)\<close>. The caller
  keeps the pointer; the string is popped.
\<close>

definition tolstring :: "('w::len) state \<Rightarrow> int \<Rightarrow> (cstr \<times> 'w word, 'w) result" where
  "tolstring L i = (case luaL_tolstring L i of
       Inl x \<Rightarrow> Inl x
     | Inr (sl, L1) \<Rightarrow> Inr (sl, lua_pop L1 1))"

subsection \<open>Adding strings\<close>

text \<open>The loop of \<open>addstrings\<close>, from index \<open>i\<close> to \<open>numargs\<close>.\<close>

function addstrings_loop :: "('w::len) state \<Rightarrow> nat \<Rightarrow> int \<Rightarrow> int \<Rightarrow> (unit, 'w) result" where
  "addstrings_loop L B i numargs =
     (if i \<le> numargs then
        (case tolstring L i of
           Inl x \<Rightarrow> Inl x
         | Inr ((str, len), L1) \<Rightarrow>
             (case prepbuffsize L1 B len of
                Inl x \<Rightarrow> Inl x
              | Inr (p, L2) \<Rightarrow>
                  (case memcpy_str L2 p str (unat len) of
                     None \<Rightarrow> Inl (Fault, L2)
                   | Some L3 \<Rightarrow> addstrings_loop (addsize L3 B len) B (i + 1) numargs)))
      else Inr ((), L))"
  by pat_completeness auto
termination
  by (relation "measure (\<lambda>(L, B, i, numargs). nat (numargs + 1 - i))") auto

definition addstrings :: "('w::len) state \<Rightarrow> nat \<Rightarrow> int \<Rightarrow> int \<Rightarrow> (unit, 'w) result" where
  "addstrings L B firstarg offs =
     (let numargs = lua_gettop L - offs in addstrings_loop L B firstarg numargs)"

text \<open>The loop of \<open>addsepstrings\<close>, from index \<open>i\<close> to \<open>numargs - 1\<close>.\<close>

function addsepstrings_loop ::
  "('w::len) state \<Rightarrow> nat \<Rightarrow> cstr \<Rightarrow> 'w word \<Rightarrow> int \<Rightarrow> int \<Rightarrow> (unit, 'w) result" where
  "addsepstrings_loop L B sep seplen i numargs =
     (if i < numargs then
        (case tolstring L i of
           Inl x \<Rightarrow> Inl x
         | Inr ((str, len), L1) \<Rightarrow>
             (case prepbuffsize L1 B (len + seplen) of
                Inl x \<Rightarrow> Inl x
              | Inr (p, L2) \<Rightarrow>
                  (case memcpy_str L2 p str (unat len) of
                     None \<Rightarrow> Inl (Fault, L2)
                   | Some L3 \<Rightarrow>
                       (let L4 = addsize L3 B len;
                            p = ptr_add p (unat len)
                        in case memcpy_str L4 p sep (unat seplen) of
                             None \<Rightarrow> Inl (Fault, L4)
                           | Some L5 \<Rightarrow>
                               addsepstrings_loop (addsize L5 B seplen) B sep seplen (i + 1) numargs))))
      else Inr ((), L))"
  by pat_completeness auto
termination
  by (relation "measure (\<lambda>(L, B, sep, seplen, i, numargs). nat (numargs - i))") auto

definition addsepstrings :: "('w::len) state \<Rightarrow> nat \<Rightarrow> (unit, 'w) result" where
  "addsepstrings L B =
     (let numargs = lua_gettop L
      in case tolstring L 2 of
           Inl x \<Rightarrow> Inl x
         | Inr ((sep, seplen), L1) \<Rightarrow>
             (case addsepstrings_loop L1 B sep seplen 3 numargs of
                Inl x \<Rightarrow> Inl x
              | Inr (u, L2) \<Rightarrow>
                  (case tolstring L2 numargs of
                     Inl x \<Rightarrow> Inl x
                   | Inr ((str, len), L3) \<Rightarrow>
                       (case prepbuffsize L3 B len of
                          Inl x \<Rightarrow> Inl x
                        | Inr (p, L4) \<Rightarrow>
                            (case memcpy_str L4 p str (unat len) of
                               None \<Rightarrow> Inl (Fault, L4)
                             | Some L5 \<Rightarrow> Inr ((), addsize L5 B len))))))"

definition pushbuffer :: "('w::len) state \<Rightarrow> int \<Rightarrow> int \<times> 'w state" where
  "pushbuffer L i = (1, lua_pushvalue L i)"

section \<open>The functions of the module\<close>

definition bufflib_add :: "('w::len) state \<Rightarrow> (int, 'w) result" where
  "bufflib_add L = (case getbuffer L 1 of
       Inl e \<Rightarrow> Inl (e, L)
     | Inr B \<Rightarrow> (case addstrings L B 2 0 of
                   Inl x \<Rightarrow> Inl x
                 | Inr (u, L1) \<Rightarrow> Inr (pushbuffer L1 1)))"

definition bufflib_addsep :: "('w::len) state \<Rightarrow> (int, 'w) result" where
  "bufflib_addsep L = (case getbuffer L 1 of
       Inl e \<Rightarrow> Inl (e, L)
     | Inr B \<Rightarrow> (case addsepstrings L B of
                   Inl x \<Rightarrow> Inl x
                 | Inr (u, L1) \<Rightarrow> Inr (pushbuffer L1 1)))"

definition bufflib_reset :: "('w::len) state \<Rightarrow> (int, 'w) result" where
  "bufflib_reset L = (case getbuffer L 1 of
       Inl e \<Rightarrow> Inl (e, L)
     | Inr B \<Rightarrow> Inr (pushbuffer (buffinit (buff_unref L B) B) 1))"

definition bufflib_tostring :: "('w::len) state \<Rightarrow> (int, 'w) result" where
  "bufflib_tostring L = (case getbuffer L 1 of
       Inl e \<Rightarrow> Inl (e, L)
     | Inr B \<Rightarrow> (case buffer_at L B of
                   None \<Rightarrow> Inl (Fault, L)
                 | Some r \<Rightarrow> (case lua_pushlstring L (b r) (unat (n r)) of
                               None \<Rightarrow> Inl (Fault, L)
                             | Some L1 \<Rightarrow> Inr (1, L1))))"

text \<open>
  \<open>lua_pushinteger(L, B->n)\<close>: the \<open>size_t\<close> becomes a \<open>lua_Integer\<close> (a signed integer of
  the same width) and then a number of the host.
\<close>

definition bufflib_len :: "('w::len) state \<Rightarrow> (int, 'w) result" where
  "bufflib_len L = (case getbuffer L 1 of
       Inl e \<Rightarrow> Inl (e, L)
     | Inr B \<Rightarrow> (case buffer_at L B of
                   None \<Rightarrow> Inl (Fault, L)
                 | Some r \<Rightarrow> Inr (1, lua_push L (VNumber (integer2number L (sint (n r)))))))"

definition bufflib_concat :: "('w::len) state \<Rightarrow> (int, 'w) result" where
  "bufflib_concat L =
     (let arg1IsBuffer = isbuffer L 1;
          arg2IsBuffer = isbuffer L 2
      in if arg1IsBuffer \<and> arg1IsBuffer then
           (case newbuffer L of (destbuff, L0) \<Rightarrow>
            (case tolstring L0 1 of
               Inl x \<Rightarrow> Inl x
             | Inr ((str1, len1), L1) \<Rightarrow>
            (case tolstring L1 2 of
               Inl x \<Rightarrow> Inl x
             | Inr ((str2, len2), L2) \<Rightarrow>
            (case prepbuffsize L2 destbuff (len1 + len2) of
               Inl x \<Rightarrow> Inl x
             | Inr (p, L3) \<Rightarrow>
            (case memcpy_str L3 p str1 (unat len1) of
               None \<Rightarrow> Inl (Fault, L3)
             | Some L4 \<Rightarrow>
                 (let L5 = addsize L4 destbuff len1;
                      p = ptr_add p (unat len1)
                  in case memcpy_str L5 p str2 (unat len2) of
                       None \<Rightarrow> Inl (Fault, L5)
                     | Some L6 \<Rightarrow> Inr (1, addsize L6 destbuff len2)))))))
         else
           (let got = (if arg1IsBuffer
                       then (case getbuffer L 1 of
                               Inl e \<Rightarrow> Inl (e, L)
                             | Inr d \<Rightarrow> (case tolstring L 2 of
                                           Inl x \<Rightarrow> Inl x
                                         | Inr (sl, L1) \<Rightarrow> Inr ((d, sl, 1), L1)))
                       else (case getbuffer L 2 of
                               Inl e \<Rightarrow> Inl (e, L)
                             | Inr d \<Rightarrow> (case tolstring L 1 of
                                           Inl x \<Rightarrow> Inl x
                                         | Inr (sl, L1) \<Rightarrow> Inr ((d, sl, 2), L1))))
            in case got of
                 Inl x \<Rightarrow> Inl x
               | Inr ((destbuff, (str, len), buffindex), L1) \<Rightarrow>
                   (case prepbuffsize L1 destbuff len of
                      Inl x \<Rightarrow> Inl x
                    | Inr (p, L2) \<Rightarrow>
                        (case memcpy_str L2 p str (unat len) of
                           None \<Rightarrow> Inl (Fault, L2)
                         | Some L3 \<Rightarrow> Inr (pushbuffer (addsize L3 destbuff len) buffindex)))))"

text \<open>\<open>lua_rawequal\<close> on two stack indices; strings are equal when their bytes are.\<close>

definition lua_rawequal :: "('w::len) state \<Rightarrow> int \<Rightarrow> int \<Rightarrow> bool" where
  "lua_rawequal L i j = (case index2value L i of
       None \<Rightarrow> False
     | Some v \<Rightarrow> (case index2value L j of None \<Rightarrow> False | Some w \<Rightarrow> v = w))"

definition bufflib_equal :: "('w::len) state \<Rightarrow> (int, 'w) result" where
  "bufflib_equal L = (case getbuffer L 1 of
       Inl e \<Rightarrow> Inl (e, L)
     | Inr buff1 \<Rightarrow>
    (case getbuffer L 2 of
       Inl e \<Rightarrow> Inl (e, L)
     | Inr buff2 \<Rightarrow>
    (case buffer_at L buff1 of
       None \<Rightarrow> Inl (Fault, L)
     | Some r1 \<Rightarrow>
    (case buffer_at L buff2 of
       None \<Rightarrow> Inl (Fault, L)
     | Some r2 \<Rightarrow>
    (case lua_pushlstring L (b r1) (unat (n r1)) of
       None \<Rightarrow> Inl (Fault, L)
     | Some L1 \<Rightarrow>
    (case lua_pushlstring L1 (b r2) (unat (n r2)) of
       None \<Rightarrow> Inl (Fault, L1)
     | Some L2 \<Rightarrow> Inr (1, lua_push L2 (VBoolean (lua_rawequal L2 (- 1) (- 2))))))))))"

definition bufflib_gc :: "('w::len) state \<Rightarrow> (int, 'w) result" where
  "bufflib_gc L = (case getbuffer L 1 of
       Inl e \<Rightarrow> Inl (e, L)
     | Inr B \<Rightarrow> Inr (0, buff_unref L B))"

definition bufflib_newbuffer :: "('w::len) state \<Rightarrow> (int, 'w) result" where
  "bufflib_newbuffer L = (case newbuffer L of (B, L0) \<Rightarrow>
     (case addstrings L0 B 1 1 of
        Inl x \<Rightarrow> Inl x
      | Inr (u, L1) \<Rightarrow> Inr (1, L1)))"

definition bufflib_isbuffer :: "('w::len) state \<Rightarrow> (int, 'w) result" where
  "bufflib_isbuffer L = Inr (1, lua_push L (VBoolean (isbuffer L 1)))"

section \<open>Method lookup\<close>

text \<open>
  A \<open>const char *\<close> taken from a Lua string ends at the first zero byte.
\<close>

definition c_str :: "string \<Rightarrow> string" where
  "c_str s = takeWhile (\<lambda>c. c \<noteq> CHR 0x00) s"

text \<open>\<open>strstr(haystack, needle)\<close>: the offset of the first occurrence, \<open>None\<close> for \<open>NULL\<close>.\<close>

fun strstr :: "string \<Rightarrow> string \<Rightarrow> nat option" where
  "strstr [] needle = (if needle = [] then Some 0 else None)"
| "strstr (c # cs) needle =
     (if take (length needle) (c # cs) = needle then Some 0
      else map_option Suc (strstr cs needle))"

text \<open>
  \<open>luaL_checkstring(L, i)\<close>: a string, or a number, which the host converts to a
  string in its stack slot.
\<close>

definition luaL_checkstring :: "('w::len) state \<Rightarrow> int \<Rightarrow> (string, 'w) result" where
  "luaL_checkstring L i = (case index2value L i of
       Some (VString s) \<Rightarrow> Inr (c_str s, L)
     | Some (VNumber x) \<Rightarrow>
         Inr (c_str (number2str L x),
              L\<lparr>stack := (stack L)[nat (if 0 < i then i - 1 else lua_gettop L + i)
                                       := VString (number2str L x)]\<rparr>)
     | _ \<Rightarrow> Inl (TypeError i, L))"

text \<open>
  \<open>lua_getmetatable\<close> for a Buffer: the table registered as \<open>BUFFERTYPE\<close> is pushed.
\<close>

definition lua_getmetatable :: "('w::len) state \<Rightarrow> int \<Rightarrow> 'w state" where
  "lua_getmetatable L i = (case registry L BUFFERTYPE of
       Some v \<Rightarrow> lua_push L v
     | None \<Rightarrow> L)"

text \<open>
  \<open>lua_getfield(L, idx, k)\<close> and \<open>lua_setfield(L, idx, k)\<close> on a table; \<open>None\<close> when the
  value at the index is not a table.
\<close>

definition table_at :: "('w::len) state \<Rightarrow> int \<Rightarrow> (nat \<times> (string \<rightharpoonup> lua_value)) option" where
  "table_at L idx = (case index2value L idx of
       Some (VTable t) \<Rightarrow> (case obj_at L t of Some (OTable m) \<Rightarrow> Some (t, m) | _ \<Rightarrow> None)
     | _ \<Rightarrow> None)"

definition lua_getfield :: "('w::len) state \<Rightarrow> int \<Rightarrow> string \<Rightarrow> 'w state option" where
  "lua_getfield L idx k = (case table_at L idx of
       Some (t, m) \<Rightarrow> Some (lua_push L (case m k of Some v \<Rightarrow> v | None \<Rightarrow> VNil))
     | None \<Rightarrow> None)"

definition lua_setfield :: "('w::len) state \<Rightarrow> int \<Rightarrow> string \<Rightarrow> 'w state option" where
  "lua_setfield L idx k = (case table_at L idx of
       Some (t, m) \<Rightarrow>
         (case rev (stack L) of
            [] \<Rightarrow> None
          | v # rest \<Rightarrow>
              Some (lua_pop (set_obj L t (OTable (m(k := (if v = VNil then None else Some v))))) 1))
     | None \<Rightarrow> None)"

definition lua_getfield_registry :: "('w::len) state \<Rightarrow> string \<Rightarrow> 'w state" where
  "lua_getfield_registry L k = lua_push L (case registry L k of Some v \<Rightarrow> v | None \<Rightarrow> VNil)"

definition lua_getglobal :: "('w::len) state \<Rightarrow> string \<Rightarrow> 'w state" where
  "lua_getglobal L k = lua_push L (case globals L k of Some v \<Rightarrow> v | None \<Rightarrow> VNil)"

definition lua_isnil :: "('w::len) state \<Rightarrow> int \<Rightarrow> bool" where
  "lua_isnil L i = (index2value L i = Some VNil)"

definition lua_istable :: "('w::len) state \<Rightarrow> int \<Rightarrow> bool" where
  "lua_istable L i = (case index2value L i of Some (VTable t) \<Rightarrow> True | _ \<Rightarrow> False)"

definition lua_isfunction :: "('w::len) state \<Rightarrow> int \<Rightarrow> bool" where
  "lua_isfunction L i = (case index2value L i of Some (VFunction f) \<Rightarrow> True | _ \<Rightarrow> False)"

definition lua_remove :: "('w::len) state \<Rightarrow> int \<Rightarrow> 'w state" where
  "lua_remove L i =
     (let k = nat (if 0 < i then i - 1 else lua_gettop L + i)
      in L\<lparr>stack := take k (stack L) @ drop (Suc k) (stack L)\<rparr>)"

text \<open>
  \<open>lua_pushcclosure(L, bufflib_stringop, 1)\<close>: pops the upvalue and pushes a new closure.
\<close>

definition lua_pushcclosure_stringop :: "('w::len) state \<Rightarrow> 'w state option" where
  "lua_pushcclosure_stringop L = (case rev (stack L) of
       [] \<Rightarrow> None
     | v # rest \<Rightarrow>
         Some (lua_push ((lua_pop L 1)\<lparr>heap := heap L @ [OStringop v]\<rparr>)
                 (VFunction (length (heap L)))))"

text \<open>
  \<open>bufflib_index\<close>, the \<open>__index\<close> metamethod. The host calls it with the indexed value
  at index 1 and the key at index 2; the model follows the calls whose first argument
  is a Buffer.
\<close>

definition bufflib_index :: "('w::len) state \<Rightarrow> (int, 'w) result" where
  "bufflib_index L0 = (case luaL_checkstring L0 2 of
       Inl x \<Rightarrow> Inl x
     | Inr (key, L) \<Rightarrow>
         if \<not> isbuffer L 1 then Inl (Unmodelled, L)
         else
           (let L1 = lua_getmetatable L 1
            in case lua_getfield L1 (- 1) key of
                 None \<Rightarrow> Inl (IndexError, L1)
               | Some L2 \<Rightarrow>
                   if \<not> lua_isnil L2 (- 1) then Inr (1, L2)
                   else
                     (let L3 = lua_pop L2 1;
                          pos = strstr key STRINGPREFIX
                      in if pos = None \<or> pos \<noteq> Some 0 then Inr (1, lua_push L3 VNil)
                         else
                           (let L4 = lua_getglobal L3 ''string''
                            in if \<not> lua_istable L4 (- 1) then Inr (1, lua_push L4 VNil)
                               else
                                 (let strkey = drop STRINGPREFIXLEN key
                                  in case lua_getfield L4 (- 1) strkey of
                                       None \<Rightarrow> Inl (IndexError, L4)
                                     | Some L5 \<Rightarrow>
                                         (let L6 = lua_remove L5 (- 2)
                                          in if \<not> lua_isfunction L6 (- 1)
                                             then Inr (1, lua_push L6 VNil)
                                             else
                                               (case lua_pushcclosure_stringop L6 of
                                                  None \<Rightarrow> Inl (Fault, L6)
                                                | Some L7 \<Rightarrow>
                                               (case lua_setfield (lua_pushvalue L7 (- 1)) 3 key of
                                                  None \<Rightarrow> Inl (IndexError, lua_pushvalue L7 (- 1))
                                                | Some L8 \<Rightarrow>
                                               (let L9 = lua_getfield_registry L8 ''_LOADED''
                                                in case lua_getfield L9 (- 1) ''bufflib'' of
                                                     None \<Rightarrow> Inl (IndexError, L9)
                                                   | Some L10 \<Rightarrow>
                                               (case lua_setfield (lua_pushvalue L10 (- 3)) (- 2) key of
                                                  None \<Rightarrow> Inl (IndexError, lua_pushvalue L10 (- 3))
                                                | Some L11 \<Rightarrow> Inr (1, lua_pop L11 2)))))))))))"

section \<open>Notions for the properties\<close>

text \<open>
  The contents of a Buffer: the \<open>n\<close> bytes at \<open>b\<close>, which is what \<open>bufflib_tostring\<close>
  pushes as a string.
\<close>

definition content :: "('w::len) state \<Rightarrow> nat \<Rightarrow> string option" where
  "content L B = (case buffer_at L B of
       None \<Rightarrow> None
     | Some r \<Rightarrow> read_bytes L (b r) (unat (n r)))"

text \<open>
  The invariant of a Buffer at address \<open>a\<close>: the used length is at most the capacity,
  the inline array has \<open>LUAL_BUFFERSIZE\<close> bytes, and \<open>b\<close> points to the start of a store
  of exactly \<open>size\<close> bytes, which is the Buffer's own inline array or a block of userdata
  memory.
\<close>

definition buffer_ok :: "('w::len) state \<Rightarrow> nat \<Rightarrow> 'w size_t Buffer \<Rightarrow> bool" where
  "buffer_ok L a r \<longleftrightarrow> n r \<le> sizeB r \<and> length (initb r) = unat (LUAL_BUFFERSIZE L) \<and>
     (case b r of
        Initb a' off \<Rightarrow> a' = a \<and> off = 0 \<and> sizeB r = LUAL_BUFFERSIZE L
      | Block k off \<Rightarrow> off = 0 \<and>
          (case obj_at L k of Some (OBlock d) \<Rightarrow> length d = unat (sizeB r) | _ \<Rightarrow> False))"

text \<open>
  The invariant of the heap: every Buffer satisfies its invariant, and no two Buffers
  share a store.
\<close>

definition wf_heap :: "('w::len) state \<Rightarrow> bool" where
  "wf_heap L \<longleftrightarrow>
     (\<forall>a<length (heap L). case heap L ! a of
         OBuffer r \<Rightarrow> buffer_ok L a r \<and>
           (\<forall>a'<length (heap L). case heap L ! a' of
               OBuffer r' \<Rightarrow> b r' = b r \<longrightarrow> a' = a
             | _ \<Rightarrow> True)
       | _ \<Rightarrow> True)"

text \<open>
  The string form of a value in a state, as \<open>luaL_tolstring\<close> computes it: the contents
  for a Buffer, the host's text for every other value.
\<close>

definition display :: "('w::len) state \<Rightarrow> lua_value option \<Rightarrow> string option" where
  "display L v = (case v of
       Some (VUserdata a) \<Rightarrow>
         (case buffer_at L a of
            Some r \<Rightarrow> content L a
          | None \<Rightarrow> Some (luaL_typename v @ '': '' @ pointer2str L (lua_topointer v)))
     | Some (VNumber x) \<Rightarrow> Some (number2str L x)
     | Some (VString s) \<Rightarrow> Some s
     | Some (VBoolean x) \<Rightarrow> Some (if x then ''true'' else ''false'')
     | Some VNil \<Rightarrow> Some ''nil''
     | _ \<Rightarrow> Some (luaL_typename v @ '': '' @ pointer2str L (lua_topointer v)))"

definition text_of :: "('w::len) state \<Rightarrow> lua_value \<Rightarrow> string" where
  "text_of L v = (case display L (Some v) of Some s \<Rightarrow> s | None \<Rightarrow> [])"

text \<open>
  A Lua string has a length that fits \<open>size_t\<close>. The string forms of the values that
  are not Buffers do; for a Buffer it follows from the invariant.
\<close>

definition strings_fit :: "('w::len) state \<Rightarrow> lua_value list \<Rightarrow> bool" where
  "strings_fit L vs \<longleftrightarrow> list_all (\<lambda>v. length (text_of L v) < 2 ^ LENGTH('w)) vs"

text \<open>
  What a run of appends to the Buffer at \<open>B\<close> leaves in it, given its contents \<open>acc\<close>
  before: each value adds its string form, in order. The string form of the Buffer
  itself is its contents at that moment; the string form of any other value is the one
  of the state the call started in.
\<close>

fun appended :: "('w::len) state \<Rightarrow> nat \<Rightarrow> string \<Rightarrow> lua_value list \<Rightarrow> string" where
  "appended L B acc [] = acc"
| "appended L B acc (v # vs) =
     appended L B (acc @ (if v = VUserdata B then acc else text_of L v)) vs"

text \<open>The same with a separator after each value but the last.\<close>

fun appended_sep :: "('w::len) state \<Rightarrow> nat \<Rightarrow> string \<Rightarrow> string \<Rightarrow> lua_value list \<Rightarrow> string" where
  "appended_sep L B sep acc [] = acc"
| "appended_sep L B sep acc [v] =
     acc @ (if v = VUserdata B then acc else text_of L v)"
| "appended_sep L B sep acc (v # v' # vs) =
     appended_sep L B sep
       (acc @ (if v = VUserdata B then acc else text_of L v) @ sep) (v' # vs)"

text \<open>
  The pointers to the string forms of the values stay good for the whole call: each
  value is a Lua string itself, or the collector of the host does not run.
\<close>

definition is_string :: "lua_value \<Rightarrow> bool" where
  "is_string v = (case v of VString s \<Rightarrow> True | _ \<Rightarrow> False)"

definition strings_stay :: "('w::len) state \<Rightarrow> lua_value list \<Rightarrow> bool" where
  "strings_stay L vs = (if gc_runs L then list_all is_string vs else True)"

text \<open>The arguments of a call: the stack slots \<open>lo\<close> to \<open>hi\<close>.\<close>

definition args :: "('w::len) state \<Rightarrow> int \<Rightarrow> int \<Rightarrow> lua_value list" where
  "args L lo hi = drop (nat (lo - 1)) (take (nat hi) (stack L))"

text \<open>The state a function leaves, whether it returns or raises.\<close>

definition final_state :: "('a, 'w::len) result \<Rightarrow> 'w state" where
  "final_state res = (case res of Inl (e, L) \<Rightarrow> L | Inr (x, L) \<Rightarrow> L)"

text \<open>The error a function raises, \<open>None\<close> when it returns.\<close>

definition raised :: "('a, 'w::len) result \<Rightarrow> error option" where
  "raised res = (case res of Inl (e, L) \<Rightarrow> Some e | Inr x \<Rightarrow> None)"

text \<open>The value a function returns: the top of the stack it leaves.\<close>

definition returned :: "(int, 'w::len) result \<Rightarrow> lua_value option" where
  "returned res = (case res of Inl x \<Rightarrow> None | Inr (k, L) \<Rightarrow> index2value L (- 1))"

text \<open>The table at an address.\<close>

definition table_of :: "('w::len) state \<Rightarrow> nat \<Rightarrow> (string \<rightharpoonup> lua_value) option" where
  "table_of L t = (case obj_at L t of Some (OTable m) \<Rightarrow> Some m | _ \<Rightarrow> None)"

text \<open>The number of values a function returns.\<close>

definition nresults :: "(int, 'w::len) result \<Rightarrow> int option" where
  "nresults res = (case res of Inl x \<Rightarrow> None | Inr (k, L) \<Rightarrow> Some k)"

subsection \<open>Notions for the method lookup\<close>

text \<open>
  The function that the global table \<open>string\<close> binds to a name, if the global is a table
  and the value at the name is a function.
\<close>

definition string_function :: "('w::len) state \<Rightarrow> string \<Rightarrow> nat option" where
  "string_function L k = (case globals L ''string'' of
       Some (VTable t) \<Rightarrow>
         (case table_of L t of
            Some sm \<Rightarrow> (case sm k of Some (VFunction f) \<Rightarrow> Some f | _ \<Rightarrow> None)
          | None \<Rightarrow> None)
     | _ \<Rightarrow> None)"

text \<open>A value of type table refers to a table of the heap.\<close>

definition table_value_ok :: "('w::len) state \<Rightarrow> lua_value option \<Rightarrow> bool" where
  "table_value_ok L v = (case v of Some (VTable t) \<Rightarrow> table_of L t \<noteq> None | _ \<Rightarrow> True)"

text \<open>The module table: the table at \<open>_LOADED.bufflib\<close> of the registry.\<close>

definition module_table :: "('w::len) state \<Rightarrow> nat option" where
  "module_table L = (case registry L ''_LOADED'' of
       Some (VTable ld) \<Rightarrow>
         (case table_of L ld of
            Some lm \<Rightarrow>
              (case lm ''bufflib'' of
                 Some (VTable lib) \<Rightarrow> (if table_of L lib \<noteq> None then Some lib else None)
               | _ \<Rightarrow> None)
          | None \<Rightarrow> None)
     | _ \<Rightarrow> None)"

text \<open>The metatable of the Buffers: the table registered as \<open>BUFFERTYPE\<close>.\<close>

definition buffer_metatable :: "('w::len) state \<Rightarrow> nat option" where
  "buffer_metatable L = (case registry L BUFFERTYPE of
       Some (VTable t) \<Rightarrow> (if table_of L t \<noteq> None then Some t else None)
     | _ \<Rightarrow> None)"

text \<open>The field of a table of the heap.\<close>

definition field :: "('w::len) state \<Rightarrow> nat \<Rightarrow> string \<Rightarrow> lua_value option" where
  "field L t k = (case table_of L t of Some m \<Rightarrow> m k | None \<Rightarrow> None)"

definition starts_with :: "string \<Rightarrow> string \<Rightarrow> bool" where
  "starts_with p s \<longleftrightarrow> take (length p) s = p"

section \<open>Notions for the proofs\<close>

text \<open>
  The state \<open>prepbuffsize\<close> leaves when it replaces the store of the Buffer at \<open>B\<close> by a
  block of \<open>newsize\<close> bytes: the block is the last object of the heap and starts with
  the contents, the Buffer refers to it, and the registry holds it under a new reference
  in place of the old one.
\<close>

definition unref_refs :: "('w::len) state \<Rightarrow> nat \<Rightarrow> (int \<times> lua_value) list" where
  "unref_refs L B = refs (buff_unref L B)"

definition grown_buffer :: "('w::len) state \<Rightarrow> 'w size_t Buffer \<Rightarrow> nat \<Rightarrow> 'w word \<Rightarrow> 'w size_t Buffer" where
  "grown_buffer L r B newsize =
     r\<lparr>ref := fresh_ref (unref_refs L B), b := Block (length (heap L)) 0, sizeB := newsize\<rparr>"

definition grown_block :: "string \<Rightarrow> nat \<Rightarrow> string" where
  "grown_block c newsize = c @ replicate (newsize - length c) (CHR 0x00)"

definition grown :: "('w::len) state \<Rightarrow> nat \<Rightarrow> 'w word \<Rightarrow> 'w state" where
  "grown L B newsize = (case buffer_at L B of
       None \<Rightarrow> L
     | Some r \<Rightarrow>
         L\<lparr>heap := (heap L @ [OBlock (grown_block (case content L B of Some c \<Rightarrow> c | None \<Rightarrow> [])
                                                 (unat newsize))])
                      [B := OBuffer (grown_buffer L r B newsize)],
           refs := (fresh_ref (unref_refs L B), VUserdata (length (heap L))) # unref_refs L B\<rparr>)"

text \<open>
  What an operation on the Buffer at \<open>B\<close> leaves alone: the stack, the registry, the
  globals and the host's fields, which addresses hold Buffers, the contents of every
  other Buffer, and the tables.
\<close>

definition frame :: "('w::len) state \<Rightarrow> 'w state \<Rightarrow> nat \<Rightarrow> bool" where
  "frame L L' B \<longleftrightarrow>
     stack L' = stack L \<and> registry L' = registry L \<and> globals L' = globals L \<and>
     LUAL_BUFFERSIZE L' = LUAL_BUFFERSIZE L \<and> number2str L' = number2str L \<and>
     integer2number L' = integer2number L \<and> pointer2str L' = pointer2str L \<and>
     gc_runs L' = gc_runs L \<and>
     length (heap L) \<le> length (heap L') \<and>
     (\<forall>a. (buffer_at L' a = None) = (buffer_at L a = None)) \<and>
     (\<forall>a. a \<noteq> B \<longrightarrow> content L' a = content L a) \<and>
     (\<forall>t. table_of L' t = table_of L t)"

text \<open>
  One append, as the module's functions do it: room for \<open>len\<close> bytes, the copy, and
  the new length.
\<close>

definition add_bytes :: "('w::len) state \<Rightarrow> nat \<Rightarrow> string \<Rightarrow> 'w word \<Rightarrow> (unit, 'w) result" where
  "add_bytes L B str len = (case prepbuffsize L B len of
       Inl x \<Rightarrow> Inl x
     | Inr (p, L2) \<Rightarrow>
         (case memcpy L2 p str (unat len) of
            None \<Rightarrow> Inl (Fault, L2)
          | Some L3 \<Rightarrow> Inr ((), addsize L3 B len)))"

text \<open>
  One round of the loop of \<open>addsepstrings\<close>: room for the value and the separator, the
  two copies and the two additions to the length.
\<close>

definition add_sep_bytes ::
  "('w::len) state \<Rightarrow> nat \<Rightarrow> string \<Rightarrow> 'w word \<Rightarrow> string \<Rightarrow> 'w word \<Rightarrow> (unit, 'w) result" where
  "add_sep_bytes L B str len sep seplen = (case prepbuffsize L B (len + seplen) of
       Inl x \<Rightarrow> Inl x
     | Inr (p, L2) \<Rightarrow>
         (case memcpy L2 p str (unat len) of
            None \<Rightarrow> Inl (Fault, L2)
          | Some L3 \<Rightarrow>
              (case memcpy (addsize L3 B len) (ptr_add p (unat len)) sep (unat seplen) of
                 None \<Rightarrow> Inl (Fault, addsize L3 B len)
               | Some L5 \<Rightarrow> Inr ((), addsize L5 B seplen))))"

text \<open>The pointer \<open>tolstring\<close> returns for a value with the string form \<open>s\<close>.\<close>

definition pointer_to :: "('w::len) state \<Rightarrow> lua_value option \<Rightarrow> string \<Rightarrow> cstr" where
  "pointer_to L v s = CStr s (case v of Some (VString x) \<Rightarrow> None | _ \<Rightarrow> Some (length (heap L)))"

text \<open>The same two steps with the sources given by pointers to Lua strings.\<close>

definition add_str :: "('w::len) state \<Rightarrow> nat \<Rightarrow> cstr \<Rightarrow> 'w word \<Rightarrow> (unit, 'w) result" where
  "add_str L B str len = (case prepbuffsize L B len of
       Inl x \<Rightarrow> Inl x
     | Inr (p, L2) \<Rightarrow>
         (case memcpy_str L2 p str (unat len) of
            None \<Rightarrow> Inl (Fault, L2)
          | Some L3 \<Rightarrow> Inr ((), addsize L3 B len)))"

definition add_sep_str ::
  "('w::len) state \<Rightarrow> nat \<Rightarrow> cstr \<Rightarrow> 'w word \<Rightarrow> cstr \<Rightarrow> 'w word \<Rightarrow> (unit, 'w) result" where
  "add_sep_str L B str len sep seplen = (case prepbuffsize L B (len + seplen) of
       Inl x \<Rightarrow> Inl x
     | Inr (p, L2) \<Rightarrow>
         (case memcpy_str L2 p str (unat len) of
            None \<Rightarrow> Inl (Fault, L2)
          | Some L3 \<Rightarrow>
              (case memcpy_str (addsize L3 B len) (ptr_add p (unat len)) sep (unat seplen) of
                 None \<Rightarrow> Inl (Fault, addsize L3 B len)
               | Some L5 \<Rightarrow> Inr ((), addsize L5 B seplen))))"

text \<open>What the loop of \<open>addsepstrings\<close> leaves: each value followed by the separator.\<close>

fun appended_seps :: "('w::len) state \<Rightarrow> nat \<Rightarrow> string \<Rightarrow> string \<Rightarrow> lua_value list \<Rightarrow> string" where
  "appended_seps L B sep acc [] = acc"
| "appended_seps L B sep acc (v # vs) =
     appended_seps L B sep (acc @ (if v = VUserdata B then acc else text_of L v) @ sep) vs"

text \<open>The stack is the same, and the same addresses hold Buffers.\<close>

definition same_buffers :: "('w::len) state \<Rightarrow> 'w state \<Rightarrow> bool" where
  "same_buffers L L' \<longleftrightarrow>
     stack L' = stack L \<and> (\<forall>a. (buffer_at L' a = None) = (buffer_at L a = None))"

section \<open>Example states\<close>

text \<open>
  A host with 64-bit sizes and an inline store of four bytes, and a state of it whose
  heap holds one Buffer, at address 0, with the contents \<open>ab\<close>.
\<close>

definition ex_host :: "64 state" where
  "ex_host = \<lparr>stack = [], heap = [], refs = [], registry = Map.empty, globals = Map.empty,
              LUAL_BUFFERSIZE = 4, number2str = (\<lambda>x. ''0''), integer2number = real_of_int,
              pointer2str = (\<lambda>p. ''0x0''), gc_runs = False\<rparr>"

definition ex_buffer :: "64 word Buffer" where
  "ex_buffer = \<lparr>ref = LUA_NOREF, b = Initb 0 0, sizeB = 4, n = 2,
                initb = ''ab'' @ [CHR 0x00, CHR 0x00]\<rparr>"

definition ex_ab :: "64 state" where
  "ex_ab = ex_host\<lparr>heap := [OBuffer ex_buffer]\<rparr>"

text \<open>A call \<open>add(buffer, "cde", buffer, true)\<close> on that Buffer.\<close>

definition ex_add :: "64 state" where
  "ex_add = ex_ab\<lparr>stack := [VUserdata 0, VString ''cde'', VUserdata 0, VBoolean True]\<rparr>"

text \<open>
  An empty Buffer at address 0, and the call \<open>addsep(buffer, ",", "a", "b", "c")\<close> on it.
\<close>

definition ex_empty :: "64 state" where
  "ex_empty = ex_host\<lparr>heap := [OBuffer \<lparr>ref = LUA_NOREF, b = Initb 0 0, sizeB = 4, n = 0,
                                          initb = replicate 4 (CHR 0x00)\<rparr>]\<rparr>"

definition ex_addsep :: "64 state" where
  "ex_addsep = ex_empty\<lparr>stack := [VUserdata 0, VString '','', VString ''a'', VString ''b'',
                                  VString ''c'']\<rparr>"

text \<open>The call \<open>addsep(buffer, ",")\<close> on the Buffer that holds \<open>ab\<close>.\<close>

definition ex_addsep0 :: "64 state" where
  "ex_addsep0 = ex_ab\<lparr>stack := [VUserdata 0, VString '','']\<rparr>"

text \<open>
  A state with two Buffers, the one at address 0 holds \<open>ab\<close> and the one at address 1
  holds \<open>abx\<close>.
\<close>

definition ex_two :: "64 state" where
  "ex_two = ex_host\<lparr>heap := [OBuffer ex_buffer,
                              OBuffer \<lparr>ref = LUA_NOREF, b = Initb 1 0, sizeB = 4, n = 3,
                                       initb = ''abx'' @ [CHR 0x00]\<rparr>]\<rparr>"

text \<open>
  The calls \<open>A:add(C)\<close> and \<open>A:addsep(",", C, "d")\<close> with those two Buffers, on a host
  whose collector runs when userdata is allocated.
\<close>

definition ex_gc_add :: "64 state" where
  "ex_gc_add = ex_two\<lparr>gc_runs := True, stack := [VUserdata 0, VUserdata 1]\<rparr>"

definition ex_gc_addsep :: "64 state" where
  "ex_gc_addsep = ex_two\<lparr>gc_runs := True,
                          stack := [VUserdata 0, VString '','', VUserdata 1, VString ''d'']\<rparr>"

text \<open>The call \<open>concat(buffer, "x")\<close> on the Buffer that holds \<open>ab\<close>.\<close>

definition ex_concat :: "64 state" where
  "ex_concat = ex_ab\<lparr>stack := [VUserdata 0, VString ''x'']\<rparr>"

text \<open>
  A state after the module was loaded, cut down to what a lookup reads. The heap holds
  a Buffer at address 0, the metatable of the Buffers at 1, the table \<open>string\<close> at 2,
  the table \<open>_LOADED\<close> at 3, the module table at 4, the adapter of \<open>string.len\<close> at 5,
  and the functions \<open>string.len\<close> and \<open>string.rep\<close> at 6 and 7. The adapter of
  \<open>string.len\<close> is in the metatable and in the module table as \<open>s_len\<close>; \<open>string.rep\<close>
  has no adapter yet.
\<close>

definition ex_lookup :: "64 state" where
  "ex_lookup = ex_host
     \<lparr>heap := [OBuffer ex_buffer,
               OTable (Map.empty(''s_len'' \<mapsto> VFunction 5)),
               OTable (Map.empty(''len'' \<mapsto> VFunction 6, ''rep'' \<mapsto> VFunction 7)),
               OTable (Map.empty(''bufflib'' \<mapsto> VTable 4)),
               OTable (Map.empty(''s_len'' \<mapsto> VFunction 5)),
               OStringop (VFunction 6),
               OFunction,
               OFunction],
      registry := Map.empty(BUFFERTYPE \<mapsto> VTable 1, ''_LOADED'' \<mapsto> VTable 3),
      globals := Map.empty(''string'' \<mapsto> VTable 2)\<rparr>"

text \<open>The lookup of a name on the Buffer of that state.\<close>

definition ex_index :: "string \<Rightarrow> 64 state" where
  "ex_index name = ex_lookup\<lparr>stack := [VUserdata 0, VString name]\<rparr>"

text \<open>A name with a zero byte in it: \<open>s_len\<close>, a zero byte, \<open>x\<close>.\<close>

definition ex_zero_name :: string where
  "ex_zero_name = ''s_len'' @ [CHR 0x00] @ ''x''"

section \<open>Lemmas\<close>

declare addstrings_loop.simps [simp del] addsepstrings_loop.simps [simp del]

lemma obj_at_set_obj:
  "obj_at (set_obj L a ob) a' = (if a' = a \<and> a < length (heap L) then Some ob else obj_at L a')"
  by (simp add: obj_at_def set_obj_def)

lemma buffer_at_Some_iff:
  "buffer_at L a = Some r \<longleftrightarrow> a < length (heap L) \<and> heap L ! a = OBuffer r"
  by (simp add: buffer_at_def obj_at_def split: obj.splits)

lemma wf_heap_iff:
  "wf_heap L \<longleftrightarrow>
     (\<forall>a r. buffer_at L a = Some r \<longrightarrow>
        buffer_ok L a r \<and> (\<forall>a' r'. buffer_at L a' = Some r' \<longrightarrow> b r' = b r \<longrightarrow> a' = a))"
  unfolding wf_heap_def buffer_at_Some_iff
  apply (rule iffI)
   apply (intro allI impI)
   apply (elim conjE)
  subgoal for a r
    apply (drule spec[of _ a])
    apply simp
    apply (intro allI impI)
    subgoal for a' r'
      apply (elim conjE)
      apply (drule spec[of _ a'])
      apply simp
      done
    done
  apply (intro allI impI)
  subgoal for a
    apply (cases "heap L ! a")
        apply simp_all
    apply (intro allI impI)
    subgoal for r a'
      apply (cases "heap L ! a'")
      apply simp_all
      done
    done
  done

lemma prepbuffsize_nogrow:
  "buffer_at L B = Some r \<Longrightarrow> \<not> sizeB r - n r < sz \<Longrightarrow>
   prepbuffsize L B sz = Inr (ptr_add (b r) (unat (n r)), L)"
  by (simp add: prepbuffsize_def)






lemma region_heap_append:
  "region L p = Some d \<Longrightarrow> region (L\<lparr>heap := heap L @ xs, stack := st\<rparr>) p = Some d"
  by (auto simp: region_def buffer_at_def obj_at_def nth_append split: cptr.splits option.splits obj.splits if_splits)

lemma prepbuffsize_grow:
  assumes B: "buffer_at L B = Some r" and lt: "sizeB r - n r < sz"
    and rd: "read_bytes L (b r) (unat (n r)) = Some c"
    and ns: "newsize = (if sizeB r * 2 - n r < sz then n r + sz else sizeB r * 2)"
    and ok: "\<not> (newsize < n r \<or> newsize - n r < sz)"
  shows "prepbuffsize L B sz = Inr (Block (length (heap L)) (unat (n r)), grown L B newsize)"
proof -
  from rd obtain d where d: "region L (b r) = Some d" "offset (b r) + unat (n r) \<le> length d"
    "c = take (unat (n r)) (drop (offset (b r)) d)"
    by (auto simp: read_bytes_def split: option.splits if_splits)
  have len_c: "length c = unat (n r)" using d by simp
  have le: "unat (n r) \<le> unat newsize" using ok by (simp add: word_le_nat_alt not_less)
  let ?L1 = "L\<lparr>heap := heap L @ [OBlock (replicate (unat newsize) (CHR 0x00))],
                 stack := stack L @ [VUserdata (length (heap L))]\<rparr>"
  have r1: "read_bytes ?L1 (b r) (unat (n r)) = Some c"
    using region_heap_append[OF d(1)] d by (simp add: read_bytes_def)
  have Blt: "B < length (heap L)" using B by (simp add: buffer_at_Some_iff)
  have cB: "content L B = Some c" using B rd by (simp add: content_def)
  have g: "grown L B newsize = L\<lparr>heap := (heap L @ [OBlock (grown_block c (unat newsize))])
                       [B := OBuffer (grown_buffer L r B newsize)],
       refs := (fresh_ref (unref_refs L B), VUserdata (length (heap L))) # unref_refs L B\<rparr>"
    by (simp add: grown_def B cB)
  show ?thesis
    using B lt ok ns[symmetric] r1 le len_c Blt
    apply (simp add: prepbuffsize_def Let_def lua_newuserdata_def g)
    apply (simp add: memcpy_def region_def obj_at_def offset_def set_region_def set_obj_def
        buff_unref_def buffer_at_def luaL_unref_def luaL_ref_def lua_pop_def ptr_add_def Let_def nth_append
        grown_buffer_def grown_block_def unref_refs_def
        split: if_splits)
    done
qed



lemma obj_at_grown:
  assumes "buffer_at L B = Some r"
  shows "obj_at (grown L B newsize) a =
     (if a = B then Some (OBuffer (grown_buffer L r B newsize))
      else if a = length (heap L)
           then Some (OBlock (grown_block (case content L B of Some c \<Rightarrow> c | None \<Rightarrow> []) (unat newsize)))
           else obj_at L a)"
proof -
  have "B < length (heap L)" using assms by (simp add: buffer_at_Some_iff)
  then show ?thesis
    by (auto simp: grown_def assms obj_at_def nth_append)
qed

lemma buffer_at_grown:
  assumes "buffer_at L B = Some r"
  shows "buffer_at (grown L B newsize) a =
     (if a = B then Some (grown_buffer L r B newsize) else buffer_at L a)"
  using assms
  by (auto simp: buffer_at_def obj_at_grown) (auto simp: obj_at_def)

lemma fields_grown:
  "stack (grown L B newsize) = stack L"
  "registry (grown L B newsize) = registry L"
  "globals (grown L B newsize) = globals L"
  "LUAL_BUFFERSIZE (grown L B newsize) = LUAL_BUFFERSIZE L"
  "number2str (grown L B newsize) = number2str L"
  "integer2number (grown L B newsize) = integer2number L"
  "pointer2str (grown L B newsize) = pointer2str L"
  "gc_runs (grown L B newsize) = gc_runs L"
  by (simp_all add: grown_def split: option.splits)

lemma grown_buffer_sel:
  "b (grown_buffer L r B newsize) = Block (length (heap L)) 0"
  "sizeB (grown_buffer L r B newsize) = newsize"
  "n (grown_buffer L r B newsize) = n r"
  "initb (grown_buffer L r B newsize) = initb r"
  by (simp_all add: grown_buffer_def)


lemma frame_refl: "frame L L B"
  by (simp add: frame_def)

lemma frame_trans: "frame L L1 B \<Longrightarrow> frame L1 L2 B \<Longrightarrow> frame L L2 B"
  by (auto simp: frame_def)

lemma wf_content:
  assumes "wf_heap L" "buffer_at L B = Some r"
  shows "\<exists>d. region L (b r) = Some d \<and> offset (b r) = 0 \<and> length d = unat (sizeB r) \<and>
             content L B = Some (take (unat (n r)) d) \<and> unat (n r) \<le> unat (sizeB r)"
proof -
  have ok: "buffer_ok L B r" using assms by (simp add: wf_heap_iff)
  then have le: "unat (n r) \<le> unat (sizeB r)" by (simp add: buffer_ok_def word_le_nat_alt)
  show ?thesis
  proof (cases "b r")
    case (Initb a off)
    then show ?thesis using ok le assms(2)
      by (simp add: buffer_ok_def content_def read_bytes_def region_def offset_def)
  next
    case (Block k off)
    then obtain d where "obj_at L k = Some (OBlock d)" "length d = unat (sizeB r)" "off = 0"
      using ok by (auto simp: buffer_ok_def split: option.splits obj.splits)
    then show ?thesis using Block le assms(2)
      by (simp add: content_def read_bytes_def region_def offset_def)
  qed
qed

lemma wf_buffer_okD: "wf_heap L \<Longrightarrow> buffer_at L a = Some r \<Longrightarrow> buffer_ok L a r"
  by (simp add: wf_heap_iff)

lemma wf_uniqD: "wf_heap L \<Longrightarrow> buffer_at L a = Some r \<Longrightarrow> buffer_at L a' = Some r' \<Longrightarrow> b r' = b r \<Longrightarrow> a' = a"
  by (simp add: wf_heap_iff)

lemma buffer_ok_block_lt:
  "buffer_ok L a r \<Longrightarrow> b r = Block k off \<Longrightarrow> k < length (heap L) \<and> off = 0 \<and> buffer_at L k = None"
  by (auto simp: buffer_ok_def obj_at_def buffer_at_def split: option.splits obj.splits if_splits)

lemma wf_grown:
  assumes wf: "wf_heap L" and B: "buffer_at L B = Some r" and le: "n r \<le> newsize"
  shows "wf_heap (grown L B newsize)"
proof -
  from wf_content[OF wf B] obtain d where d: "region L (b r) = Some d" "offset (b r) = 0"
    "length d = unat (sizeB r)" "unat (n r) \<le> unat (sizeB r)" "content L B = Some (take (unat (n r)) d)" by blast
  have le': "unat (n r) \<le> unat newsize" using le by (simp add: word_le_nat_alt)
  have Blt: "B < length (heap L)" using B by (simp add: buffer_at_Some_iff)
  let ?G = "grown L B newsize"
  have ib: "length (initb r) = unat (LUAL_BUFFERSIZE L)"
    using wf_buffer_okD[OF wf B] by (simp add: buffer_ok_def)
  have okB: "buffer_ok ?G B (grown_buffer L r B newsize)"
    using d le le' Blt ib
    by (simp add: buffer_ok_def grown_buffer_sel obj_at_grown[OF B] grown_block_def fields_grown)
  have okA: "buffer_ok ?G a ra" if "a \<noteq> B" "buffer_at L a = Some ra" for a ra
  proof -
    have ok0: "buffer_ok L a ra" using wf that by (simp add: wf_heap_iff)
    show ?thesis
    proof (cases "b ra")
      case (Initb a' off)
      then show ?thesis using ok0 by (auto simp: buffer_ok_def fields_grown)
    next
      case (Block k off)
      from buffer_ok_block_lt[OF ok0 Block] have "k < length (heap L)" "buffer_at L k = None" by auto
      then have "k \<noteq> B" "k \<noteq> length (heap L)" using B by auto
      then show ?thesis using ok0 Block by (simp add: buffer_ok_def obj_at_grown[OF B] fields_grown)
    qed
  qed
  have nb: "False" if "buffer_at L a = Some ra" "b ra = Block (length (heap L)) off" for a ra off
    using buffer_ok_block_lt[OF wf_buffer_okD[OF wf that(1)] that(2)] by auto
  show ?thesis
    unfolding wf_heap_iff
  proof (intro allI impI conjI)
    fix a ra assume "buffer_at ?G a = Some ra"
    then show "buffer_ok ?G a ra"
      using okB okA by (auto simp: buffer_at_grown[OF B] split: if_splits)
  next
    fix a ra a' ra' assume "buffer_at ?G a = Some ra" "buffer_at ?G a' = Some ra'" "b ra' = b ra"
    then show "a' = a"
      using nb[of a ra 0] nb[of a' ra' 0] wf_uniqD[OF wf, of a ra a' ra']
      by (auto simp: buffer_at_grown[OF B] grown_buffer_sel split: if_splits)
  qed
qed

lemma content_grown:
  assumes wf: "wf_heap L" and B: "buffer_at L B = Some r" and le: "n r \<le> newsize"
    and a: "buffer_at L a = Some ra"
  shows "content (grown L B newsize) a = content L a"
proof (cases "a = B")
  case True
  from wf_content[OF wf B] obtain d where d: "content L B = Some (take (unat (n r)) d)"
     "unat (n r) \<le> unat (sizeB r)" "length d = unat (sizeB r)" by blast
  have le': "unat (n r) \<le> unat newsize" using le by (simp add: word_le_nat_alt)
  have "B \<noteq> length (heap L)" using B by (auto simp: buffer_at_Some_iff)
  then show ?thesis using True d le'
    by (simp add: content_def buffer_at_grown[OF B] grown_buffer_sel read_bytes_def region_def
        obj_at_grown[OF B] offset_def grown_block_def B)
next
  case False
  have ok0: "buffer_ok L a ra" using wf a by (simp add: wf_heap_iff)
  show ?thesis
  proof (cases "b ra")
    case (Initb a' off)
    then show ?thesis using ok0 False a
      by (simp add: buffer_ok_def content_def buffer_at_grown[OF B] read_bytes_def region_def offset_def)
  next
    case (Block k off)
    from buffer_ok_block_lt[OF ok0 Block] have "k < length (heap L)" "buffer_at L k = None" by auto
    then have "k \<noteq> B" "k \<noteq> length (heap L)" using B by auto
    then show ?thesis using False a Block
      by (simp add: content_def buffer_at_grown[OF B] read_bytes_def region_def offset_def obj_at_grown[OF B])
  qed
qed


lemma wf_heap_updI:
  assumes wf: "wf_heap L"
    and bufs: "\<And>a. buffer_at L' a = (if a = B then Some r' else buffer_at L a)"
    and blks: "\<And>a ra k off. a \<noteq> B \<Longrightarrow> buffer_at L a = Some ra \<Longrightarrow> b ra = Block k off
                 \<Longrightarrow> obj_at L' k = obj_at L k"
    and ok: "buffer_ok L' B r'"
    and uniq: "\<And>a ra. a \<noteq> B \<Longrightarrow> buffer_at L a = Some ra \<Longrightarrow> b ra \<noteq> b r'"
    and lb: "LUAL_BUFFERSIZE L' = LUAL_BUFFERSIZE L"
  shows "wf_heap L'"
  unfolding wf_heap_iff
proof (intro allI impI conjI)
  fix a ra assume a: "buffer_at L' a = Some ra"
  show "buffer_ok L' a ra"
  proof (cases "a = B")
    case True
    then show ?thesis using a ok by (simp add: bufs)
  next
    case False
    then have ra: "buffer_at L a = Some ra" using a by (simp add: bufs)
    have ok0: "buffer_ok L a ra" using wf ra by (simp add: wf_heap_iff)
    show ?thesis
    proof (cases "b ra")
      case (Initb a' off)
      then show ?thesis using ok0 by (auto simp: buffer_ok_def lb)
    next
      case (Block k off)
      then show ?thesis using ok0 blks[OF False ra Block] by (simp add: buffer_ok_def lb)
    qed
  qed
next
  fix a ra a' ra' assume a: "buffer_at L' a = Some ra" "buffer_at L' a' = Some ra'" "b ra' = b ra"
  show "a' = a"
  proof (cases "a = B")
    case aB: True
    show ?thesis
    proof (cases "a' = B")
      case True
      then show ?thesis using aB by simp
    next
      case False
      then show ?thesis using a aB uniq[of a' ra'] by (simp add: bufs)
    qed
  next
    case aB: False
    show ?thesis
    proof (cases "a' = B")
      case True
      then show ?thesis using a aB uniq[of a ra] by (simp add: bufs)
    next
      case False
      then show ?thesis using a aB wf_uniqD[OF wf, of a ra a' ra'] by (simp add: bufs)
    qed
  qed
qed

lemma content_updI:
  assumes wf: "wf_heap L"
    and bufs: "\<And>a. buffer_at L' a = (if a = B then Some r' else buffer_at L a)"
    and blks: "\<And>a ra k off. a \<noteq> B \<Longrightarrow> buffer_at L a = Some ra \<Longrightarrow> b ra = Block k off
                 \<Longrightarrow> obj_at L' k = obj_at L k"
    and ne: "a \<noteq> B"
  shows "content L' a = content L a"
proof (cases "buffer_at L a")
  case None
  then show ?thesis using ne by (simp add: content_def bufs)
next
  case (Some ra)
  have ok0: "buffer_ok L a ra" using wf Some by (simp add: wf_heap_iff)
  show ?thesis
  proof (cases "b ra")
    case (Initb a' off)
    then show ?thesis using ok0 ne Some
      by (simp add: buffer_ok_def content_def bufs read_bytes_def region_def offset_def)
  next
    case (Block k off)
    then show ?thesis using ne Some blks[OF ne Some Block]
      by (simp add: content_def bufs read_bytes_def region_def offset_def)
  qed
qed

lemma frame_grown:
  assumes wf: "wf_heap L" and B: "buffer_at L B = Some r" and le: "n r \<le> newsize"
  shows "frame L (grown L B newsize) B"
proof -
  have Blt: "B < length (heap L)" using B by (simp add: buffer_at_Some_iff)
  have len: "length (heap L) \<le> length (heap (grown L B newsize))"
    by (simp add: grown_def B)
  have none: "(buffer_at (grown L B newsize) a = None) = (buffer_at L a = None)" for a
    using B by (simp add: buffer_at_grown[OF B])
  have cont: "content (grown L B newsize) a = content L a" if "a \<noteq> B" for a
  proof (cases "buffer_at L a")
    case None
    then show ?thesis using that by (simp add: content_def buffer_at_grown[OF B])
  next
    case (Some ra)
    then show ?thesis by (rule content_grown[OF wf B le])
  qed
  have oB: "obj_at L B = Some (OBuffer r)" using B by (simp add: obj_at_def buffer_at_Some_iff)
  have oN: "obj_at L (length (heap L)) = None" by (simp add: obj_at_def)
  have tab: "table_of (grown L B newsize) t = table_of L t" for t
    by (simp add: table_of_def obj_at_grown[OF B] oB oN)
  show ?thesis
    unfolding frame_def using len none cont tab by (simp add: fields_grown)
qed

lemma ptr_add_simps:
  "region L (ptr_add p k) = region L p"
  "offset (ptr_add p k) = offset p + k"
  "ptr_add (ptr_add p k) j = ptr_add p (k + j)"
  by (simp_all add: region_def offset_def ptr_add_def split: cptr.splits)

lemma set_region_ptr_add: "set_region L (ptr_add p k) d = set_region L p d"
  by (simp add: set_region_def ptr_add_def split: cptr.splits)

lemma memcpy_addsize:
  assumes wf: "wf_heap L" and B: "buffer_at L B = Some r"
    and m: "memcpy L (ptr_add (b r) (unat (n r))) str (unat len) = Some L3"
  shows "wf_heap (addsize L3 B len) \<and> frame L (addsize L3 B len) B \<and>
         (\<exists>c. content L B = Some c \<and> content (addsize L3 B len) B = Some (c @ take (unat len) str)) \<and>
         (\<exists>r'. buffer_at (addsize L3 B len) B = Some r' \<and> n r' = n r + len \<and>
               unat (n r') = unat (n r) + unat len \<and> b r' = b r \<and> sizeB r' = sizeB r)"
proof -
  from wf_content[OF wf B] obtain d where d: "region L (b r) = Some d" "offset (b r) = 0"
    "length d = unat (sizeB r)" "unat (n r) \<le> unat (sizeB r)" "content L B = Some (take (unat (n r)) d)"
    by blast
  define d' where "d' = take (unat (n r)) d @ take (unat len) str @ drop (unat (n r) + unat len) d"
  from m d have fits: "unat len \<le> length str" "unat (n r) + unat len \<le> unat (sizeB r)"
    and L3: "L3 = set_region L (b r) d'"
    by (auto simp: memcpy_def ptr_add_simps set_region_ptr_add d'_def split: if_splits)
  have len_d': "length d' = unat (sizeB r)" using d fits by (simp add: d'_def)
  have Blt: "B < length (heap L)" using B by (simp add: buffer_at_Some_iff)
  have ok0: "buffer_ok L B r" using wf B by (simp add: wf_heap_iff)
  have "unat (sizeB r) < 2 ^ LENGTH('a)" by simp
  then have "unat (n r) + unat len < 2 ^ LENGTH('a)" using fits(2) by linarith
  then have un: "unat (n r + len) = unat (n r) + unat len"
    by (simp add: unat_add_lem)
  have nle: "n r + len \<le> sizeB r" using fits(2) un by (simp add: word_le_nat_alt)
  have ib: "length (initb r) = unat (LUAL_BUFFERSIZE L)" using ok0 by (simp add: buffer_ok_def)
  let ?L' = "addsize L3 B len"
  show ?thesis
  proof (cases "b r")
    case (Initb a off)
    then have ao: "a = B" "off = 0" using ok0 by (auto simp: buffer_ok_def)
    define r' where "r' = r\<lparr>initb := d', n := n r + len\<rparr>"
    have L': "?L' = set_obj L B (OBuffer r')"
      using Initb ao B Blt
      by (simp add: L3 set_region_def addsize_def buffer_at_def obj_at_set_obj set_obj_def r'_def obj_at_def)
    have bufs: "buffer_at ?L' a = (if a = B then Some r' else buffer_at L a)" for a
      using Blt by (simp add: L' buffer_at_def obj_at_set_obj)
    have objs: "obj_at ?L' k = obj_at L k" if "k \<noteq> B" for k
      using that by (simp add: L' obj_at_set_obj)
    have blks: "obj_at ?L' k = obj_at L k" if "a \<noteq> B" "buffer_at L a = Some ra" "b ra = Block k off" for a ra k off
    proof -
      have "buffer_at L k = None" using buffer_ok_block_lt[OF wf_buffer_okD[OF wf that(2)] that(3)] by simp
      then have "k \<noteq> B" using B by auto
      then show ?thesis by (rule objs)
    qed
    have lb: "LUAL_BUFFERSIZE ?L' = LUAL_BUFFERSIZE L" by (simp add: L' set_obj_def)
    have sb: "sizeB r = LUAL_BUFFERSIZE L" using ok0 Initb by (simp add: buffer_ok_def)
    have okB: "buffer_ok ?L' B r'"
      using Initb ao len_d' nle sb by (simp add: buffer_ok_def r'_def lb)
    have uniq: "b ra \<noteq> b r'" if "a \<noteq> B" "buffer_at L a = Some ra" for a ra
      using wf_uniqD[OF wf B that(2)] that(1) by (auto simp: r'_def)
    have wf': "wf_heap ?L'" by (rule wf_heap_updI[OF wf bufs blks okB uniq lb])
    have cont: "content ?L' a = content L a" if "a \<noteq> B" for a
      by (rule content_updI[OF wf bufs blks that])
    have tab: "table_of ?L' t = table_of L t" for t
      using B by (auto simp: table_of_def L' obj_at_set_obj buffer_at_def split: option.splits obj.splits)
    have fr: "frame L ?L' B"
      unfolding frame_def using cont tab B by (simp add: bufs) (simp add: L' set_obj_def)
    have cB: "content ?L' B = Some (take (unat (n r)) d @ take (unat len) str)"
      using Initb ao d fits un len_d'
      by (simp add: content_def bufs read_bytes_def region_def offset_def r'_def d'_def)
    show ?thesis using wf' fr cB d(5) un by (simp add: bufs r'_def)
  next
    case (Block k off)
    then obtain dk where ko: "off = 0" "obj_at L k = Some (OBlock dk)" "k < length (heap L)" "buffer_at L k = None"
      using ok0 by (auto simp: buffer_ok_def obj_at_def buffer_at_def split: option.splits obj.splits if_splits)
    then have kB: "k \<noteq> B" using B by auto
    define r' where "r' = r\<lparr>n := n r + len\<rparr>"
    have L': "?L' = set_obj (set_obj L k (OBlock d')) B (OBuffer r')"
      using Block ko kB B Blt
      by (simp add: L3 set_region_def addsize_def buffer_at_def obj_at_set_obj r'_def)
    have objs: "obj_at ?L' a = (if a = B then Some (OBuffer r') else if a = k then Some (OBlock d') else obj_at L a)" for a
      using Blt ko by (simp add: L' obj_at_set_obj) (simp add: set_obj_def)
    have bufs: "buffer_at ?L' a = (if a = B then Some r' else buffer_at L a)" for a
      using ko by (auto simp: buffer_at_def objs)
    have blks: "obj_at ?L' k' = obj_at L k'" if "a \<noteq> B" "buffer_at L a = Some ra" "b ra = Block k' off'" for a ra k' off'
    proof -
      have "buffer_at L k' = None" "off' = 0" using buffer_ok_block_lt[OF wf_buffer_okD[OF wf that(2)] that(3)] by simp_all
      then have "k' \<noteq> B" using B by auto
      moreover have "k' \<noteq> k" using wf_uniqD[OF wf B that(2)] that(1,3) Block ko \<open>off' = 0\<close> by auto
      ultimately show ?thesis by (simp add: objs)
    qed
    have lb: "LUAL_BUFFERSIZE ?L' = LUAL_BUFFERSIZE L" by (simp add: L' set_obj_def)
    have okB: "buffer_ok ?L' B r'"
      using Block ko kB len_d' nle ib by (simp add: buffer_ok_def r'_def objs lb)
    have uniq: "b ra \<noteq> b r'" if "a \<noteq> B" "buffer_at L a = Some ra" for a ra
      using wf_uniqD[OF wf B that(2)] that(1) by (auto simp: r'_def)
    have wf': "wf_heap ?L'" by (rule wf_heap_updI[OF wf bufs blks okB uniq lb])
    have cont: "content ?L' a = content L a" if "a \<noteq> B" for a
      by (rule content_updI[OF wf bufs blks that])
    have tab: "table_of ?L' t = table_of L t" for t
      using B ko by (auto simp: table_of_def objs buffer_at_def split: option.splits obj.splits)
    have fr: "frame L ?L' B"
      unfolding frame_def using cont tab B by (simp add: bufs) (simp add: L' set_obj_def)
    have dk: "dk = d" using d(1) Block ko by (simp add: region_def)
    have cB: "content ?L' B = Some (take (unat (n r)) d @ take (unat len) str)"
      using Block ko d fits un len_d' kB
      by (simp add: content_def bufs read_bytes_def region_def offset_def r'_def d'_def objs)
    show ?thesis using wf' fr cB d(5) un by (simp add: bufs r'_def)
  qed
qed

lemma buffer_at_ex_ab: "buffer_at ex_ab 0 = Some ex_buffer"
  by (simp add: ex_ab_def ex_host_def buffer_at_def obj_at_def)

lemma unat_room:
  fixes x y s :: "'a::len word"
  assumes "y \<le> x" "\<not> x - y < s"
  shows "unat y + unat s \<le> unat x"
proof -
  have "unat (x - y) = unat x - unat y" using assms(1) by (rule unat_sub)
  moreover have "unat s \<le> unat (x - y)" using assms(2) by (simp add: word_le_nat_alt not_less)
  moreover have "unat y \<le> unat x" using assms(1) by (simp add: word_le_nat_alt)
  ultimately show ?thesis by linarith
qed

lemma two_power_len: "(2::nat) ^ LENGTH('a::len) = 2 * 2 ^ (LENGTH('a) - 1)"
proof -
  obtain k where k: "LENGTH('a) = Suc k" using len_gt_0[where 'a='a] by (cases "LENGTH('a)") auto
  show ?thesis unfolding k by simp
qed

lemma half_double:
  fixes x :: "'a::len word"
  assumes "unat x < 2 ^ (LENGTH('a) - 1)"
  shows "unat (x * 2) = unat x + unat x"
proof -
  have "unat x + unat x < 2 ^ LENGTH('a)" using assms two_power_len[where 'a='a] by simp
  then have "unat (x + x) = unat x + unat x" by (simp add: unat_add_lem)
  then show ?thesis by (simp add: mult_2_right)
qed

lemma half_lt:
  "(m::nat) \<le> 2 ^ (LENGTH('a::len) - 1) \<Longrightarrow> m < 2 ^ LENGTH('a)"
proof -
  assume a: "m \<le> 2 ^ (LENGTH('a) - 1)"
  have "(0::nat) < 2 ^ (LENGTH('a) - 1)" by simp
  then show ?thesis using a two_power_len[where 'a='a] by linarith
qed

lemma newsize_ok:
  fixes sz :: "'a::len word"
  assumes nle: "nn \<le> sb" and lt: "sb - nn < sz"
    and half: "unat nn + unat sz \<le> 2 ^ (LENGTH('a) - 1)"
    and ns: "newsize = (if sb * 2 - nn < sz then nn + sz else sb * 2)"
  shows "\<not> (newsize < nn \<or> newsize - nn < sz)"
proof -
  have un: "unat nn \<le> unat sb" using nle by (simp add: word_le_nat_alt)
  have "unat (sb - nn) = unat sb - unat nn" using nle by (rule unat_sub)
  then have "unat sb - unat nn < unat sz" using lt by (simp add: word_less_nat_alt)
  then have sb: "unat sb < 2 ^ (LENGTH('a) - 1)" using half un by linarith
  have d: "unat (sb * 2) = unat sb + unat sb" by (rule half_double[OF sb])
  have s: "unat (nn + sz) = unat nn + unat sz"
    using half_lt[OF half] by (simp add: unat_add_lem)
  show ?thesis
  proof (cases "sb * 2 - nn < sz")
    case True
    then have "newsize = nn + sz" using ns by simp
    moreover have "\<not> nn + sz < nn" using s by (simp add: word_less_nat_alt)
    moreover have "nn + sz - nn = sz" by simp
    ultimately show ?thesis by simp
  next
    case False
    then have "newsize = sb * 2" using ns by simp
    moreover have "\<not> sb * 2 < nn" using d un by (simp add: word_less_nat_alt)
    ultimately show ?thesis using False by simp
  qed
qed

lemma prepbuffsize_cases:
  fixes L :: "('w::len) state"
  assumes wf: "wf_heap L" and B: "buffer_at L B = Some r"
  shows "(prepbuffsize L B sz = Inl (TooLarge, L) \<and> 2 ^ (LENGTH('w) - 1) < unat (n r) + unat sz) \<or>
         (\<exists>p L2 r2. prepbuffsize L B sz = Inr (p, L2) \<and> wf_heap L2 \<and> frame L L2 B \<and>
            content L2 B = content L B \<and> buffer_at L2 B = Some r2 \<and> n r2 = n r \<and>
            p = ptr_add (b r2) (unat (n r2)) \<and> unat (n r) + unat sz \<le> unat (sizeB r2))"
proof (cases "sizeB r - n r < sz")
  case False
  have nle: "n r \<le> sizeB r" using wf_buffer_okD[OF wf B] by (simp add: buffer_ok_def)
  show ?thesis
    using prepbuffsize_nogrow[OF B False] wf B unat_room[OF nle False]
    by (simp add: frame_refl)
next
  case True
  have nle: "n r \<le> sizeB r" using wf_buffer_okD[OF wf B] by (simp add: buffer_ok_def)
  define newsize where "newsize = (if sizeB r * 2 - n r < sz then n r + sz else sizeB r * 2)"
  show ?thesis
  proof (cases "newsize < n r \<or> newsize - n r < sz")
    case bad: True
    then have "prepbuffsize L B sz = Inl (TooLarge, L)"
      using B True by (simp add: prepbuffsize_def Let_def newsize_def)
    moreover have "2 ^ (LENGTH('w) - 1) < unat (n r) + unat sz"
      using newsize_ok[OF nle True _ newsize_def] bad by (meson not_le_imp_less)
    ultimately show ?thesis by simp
  next
    case ok: False
    from wf_content[OF wf B] obtain d where d: "content L B = Some (take (unat (n r)) d)" by blast
    then have rd: "read_bytes L (b r) (unat (n r)) = Some (take (unat (n r)) d)"
      using B by (simp add: content_def)
    have le: "n r \<le> newsize" using ok by (simp add: not_less)
    have room: "unat (n r) + unat sz \<le> unat newsize" using unat_room[OF le] ok by simp
    have p: "prepbuffsize L B sz = Inr (Block (length (heap L)) (unat (n r)), grown L B newsize)"
      by (rule prepbuffsize_grow[OF B True rd newsize_def ok])
    have a: "buffer_at (grown L B newsize) B = Some (grown_buffer L r B newsize)"
      by (simp add: buffer_at_grown[OF B])
    show ?thesis
      using p a wf_grown[OF wf B le] frame_grown[OF wf B le] content_grown[OF wf B le B] room
      by (simp add: grown_buffer_sel ptr_add_def)
  qed
qed

lemma wf_content_length:
  assumes "wf_heap L" "buffer_at L B = Some r" "content L B = Some c"
  shows "length c = unat (n r)"
proof -
  from wf_content[OF assms(1,2)] assms(3) obtain d where
    "c = take (unat (n r)) d" "length d = unat (sizeB r)" "unat (n r) \<le> unat (sizeB r)" by auto
  then show ?thesis by simp
qed

lemma add_bytes_cases:
  fixes L :: "('w::len) state"
  assumes wf: "wf_heap L" and B: "buffer_at L B = Some r" and c: "content L B = Some c"
    and len: "unat len \<le> length str"
  shows "(add_bytes L B str len = Inl (TooLarge, L) \<and> 2 ^ (LENGTH('w) - 1) < length c + unat len) \<or>
         (\<exists>L'. add_bytes L B str len = Inr ((), L') \<and> wf_heap L' \<and> frame L L' B \<and>
               content L' B = Some (c @ take (unat len) str) \<and> buffer_at L' B \<noteq> None)"
proof -
  note lc = wf_content_length[OF wf B c]
  from prepbuffsize_cases[OF wf B, of len]
  consider "prepbuffsize L B len = Inl (TooLarge, L)" "2 ^ (LENGTH('w) - 1) < unat (n r) + unat len"
    | p L2 r2 where "prepbuffsize L B len = Inr (p, L2)" "wf_heap L2" "frame L L2 B"
      "content L2 B = content L B" "buffer_at L2 B = Some r2" "n r2 = n r"
      "p = ptr_add (b r2) (unat (n r2))" "unat (n r) + unat len \<le> unat (sizeB r2)"
    by blast
  then show ?thesis
  proof cases
    case 1
    then show ?thesis by (simp add: add_bytes_def lc)
  next
    case 2
    from wf_content[OF 2(2) 2(5)] obtain d where d: "region L2 (b r2) = Some d" "offset (b r2) = 0"
      "length d = unat (sizeB r2)" by blast
    have "\<exists>L3. memcpy L2 p str (unat len) = Some L3"
      using d 2(6,7,8) len by (simp add: memcpy_def ptr_add_simps)
    then obtain L3 where m: "memcpy L2 p str (unat len) = Some L3" by blast
    from memcpy_addsize[OF 2(2) 2(5) m[unfolded 2(7)]]
    have "wf_heap (addsize L3 B len)" "frame L2 (addsize L3 B len) B"
      "content (addsize L3 B len) B = Some (c @ take (unat len) str)"
      "buffer_at (addsize L3 B len) B \<noteq> None"
      using 2(4) c by auto
    then show ?thesis
      using 2(1,3) m frame_trans[OF 2(3)] by (simp add: add_bytes_def)
  qed
qed

lemma display_Some:
  assumes "wf_heap L"
  shows "\<exists>s. display L v = Some s"
proof (cases v)
  case None
  then show ?thesis by (simp add: display_def)
next
  case (Some x)
  show ?thesis
  proof (cases x)
    case (VUserdata a)
    show ?thesis
    proof (cases "buffer_at L a")
      case None
      then show ?thesis using Some VUserdata by (simp add: display_def)
    next
      case (Some r)
      from wf_content[OF assms Some] show ?thesis using \<open>v = Some x\<close> VUserdata Some
        by (auto simp: display_def)
    qed
  qed (simp_all add: display_def Some)
qed

lemma display_text_of: "wf_heap L \<Longrightarrow> display L (Some v) = Some (text_of L v)"
  using display_Some[of L "Some v"] by (auto simp: text_of_def)

lemma luaL_tolstring_eq:
  "luaL_tolstring L i = (case display L (index2value L i) of
       None \<Rightarrow> Inl (Fault, L)
     | Some s \<Rightarrow> Inr ((pointer_to L (index2value L i) s, word_of_nat (length s)),
                     lua_push L (VString s)))"
proof (cases "index2value L i")
  case None
  then show ?thesis
    by (simp add: luaL_tolstring_def getbuffer_def display_def Let_def pointer_to_def)
next
  case (Some x)
  show ?thesis
  proof (cases x)
    case (VUserdata a)
    then show ?thesis using Some
      by (cases "buffer_at L a")
        (simp_all add: luaL_tolstring_def getbuffer_def display_def Let_def content_def pointer_to_def
           split: option.splits)
  qed (simp_all add: luaL_tolstring_def getbuffer_def display_def Let_def Some pointer_to_def)
qed

lemma lua_pop_push: "lua_pop (lua_push L v) (Suc 0) = L"
  by (simp add: lua_pop_def lua_push_def)

lemma tolstring_eq:
  "tolstring L i = (case display L (index2value L i) of
       None \<Rightarrow> Inl (Fault, L)
     | Some s \<Rightarrow> Inr ((pointer_to L (index2value L i) s, word_of_nat (length s)), L))"
  by (simp add: tolstring_def luaL_tolstring_eq lua_pop_push split: option.splits)

lemma bytes_pointer_to: "bytes (pointer_to L v s) = s"
  by (simp add: pointer_to_def)

lemma gc_runs_set_obj: "gc_runs (set_obj L a ob) = gc_runs L"
  by (simp add: set_obj_def)

lemma gc_runs_memcpy: "memcpy L p s k = Some L' \<Longrightarrow> gc_runs L' = gc_runs L"
  by (auto simp: memcpy_def set_region_def gc_runs_set_obj split: option.splits if_splits cptr.splits)

lemma prepbuffsize_gc_runs:
  assumes "prepbuffsize L B sz = Inr (p, L')"
  shows "gc_runs L' = gc_runs L"
proof -
  from assms obtain r where r: "buffer_at L B = Some r"
    by (auto simp: prepbuffsize_def split: option.splits)
  show ?thesis
  proof (cases "sizeB r - n r < sz")
    case False
    then show ?thesis using assms r by (simp add: prepbuffsize_def)
  next
    case True
    define newsize where "newsize = (if sizeB r * 2 - n r < sz then n r + sz else sizeB r * 2)"
    let ?L1 = "snd (lua_newuserdata L (unat newsize))"
    let ?nb = "fst (lua_newuserdata L (unat newsize))"
    from assms r True obtain old L2 rf L3 where
      m: "memcpy ?L1 ?nb old (unat (n r)) = Some L2"
      and rf: "luaL_ref (buff_unref L2 B) = Some (rf, L3)"
      and L': "L' = set_obj L3 B (OBuffer (r\<lparr>ref := rf, b := ?nb, sizeB := newsize\<rparr>))"
      by (auto simp: prepbuffsize_def Let_def newsize_def split: if_splits option.splits prod.splits)
    have 1: "gc_runs ?L1 = gc_runs L" by (simp add: lua_newuserdata_def Let_def)
    have 2: "gc_runs L2 = gc_runs ?L1" by (rule gc_runs_memcpy[OF m])
    have 3: "gc_runs (buff_unref L2 B) = gc_runs L2"
      by (simp add: buff_unref_def luaL_unref_def split: option.splits)
    have 4: "gc_runs L3 = gc_runs (buff_unref L2 B)"
      using rf by (auto simp: luaL_ref_def lua_pop_def Let_def split: list.splits if_splits)
    show ?thesis using 1 2 3 4 by (simp add: L' gc_runs_set_obj)
  qed
qed

lemma add_str_valid:
  assumes "\<not> gc_runs L \<or> a = None"
  shows "add_str L B (CStr s a) len = add_bytes L B s len"
proof (cases "prepbuffsize L B len")
  case (Inl x)
  then show ?thesis by (simp add: add_str_def add_bytes_def)
next
  case (Inr y)
  obtain p L2 where y: "y = (p, L2)" by (cases y)
  have "cstr_valid L2 (CStr s a)"
    using assms prepbuffsize_gc_runs[OF Inr[unfolded y]]
    by (auto simp: cstr_valid_def split: option.splits)
  then show ?thesis using Inr y by (simp add: add_str_def add_bytes_def memcpy_str_def)
qed

lemma add_str_cases:
  "add_str L B str len = add_bytes L B (bytes str) len \<or>
   (\<exists>p L2. prepbuffsize L B len = Inr (p, L2) \<and> add_str L B str len = Inl (Fault, L2))"
proof (cases "prepbuffsize L B len")
  case (Inl x)
  then show ?thesis by (simp add: add_str_def add_bytes_def)
next
  case (Inr y)
  obtain p L2 where y: "y = (p, L2)" by (cases y)
  show ?thesis using Inr y
    by (cases "cstr_valid L2 str") (simp_all add: add_str_def add_bytes_def memcpy_str_def)
qed

lemma add_str_Inr:
  "add_str L B str len = Inr y \<Longrightarrow> add_bytes L B (bytes str) len = Inr y"
  using add_str_cases[of L B str len] by auto

lemma add_str_pointer_to:
  assumes "\<not> gc_runs L \<or> is_string v"
  shows "add_str L B (pointer_to L (Some v) s) len = add_bytes L B s len"
  unfolding pointer_to_def
  by (rule add_str_valid) (use assms in \<open>auto simp: is_string_def split: lua_value.splits\<close>)

lemma strings_stay_Cons:
  "strings_stay L (v # vs) \<longleftrightarrow> (\<not> gc_runs L \<or> is_string v) \<and> strings_stay L vs"
  by (auto simp: strings_stay_def)

lemma strings_stay_frame: "frame L L' B \<Longrightarrow> strings_stay L' vs = strings_stay L vs"
  by (simp add: strings_stay_def frame_def)

lemma display_frame:
  assumes "frame L L' B" "v \<noteq> Some (VUserdata B)"
  shows "display L' v = display L v"
proof (cases v)
  case None
  then show ?thesis using assms by (simp add: display_def frame_def)
next
  case (Some x)
  show ?thesis
  proof (cases x)
    case (VUserdata a)
    then have "a \<noteq> B" using assms(2) Some by simp
    then have "content L' a = content L a" "(buffer_at L' a = None) = (buffer_at L a = None)"
      "pointer2str L' = pointer2str L"
      using assms(1) by (simp_all add: frame_def)
    then show ?thesis using Some VUserdata
      by (cases "buffer_at L a"; cases "buffer_at L' a") (simp_all add: display_def)
  qed (use assms(1) in \<open>simp_all add: display_def Some frame_def\<close>)
qed

lemma text_of_frame: "frame L L' B \<Longrightarrow> v \<noteq> VUserdata B \<Longrightarrow> text_of L' v = text_of L v"
  by (simp add: text_of_def display_frame)

lemma appended_frame: "frame L L' B \<Longrightarrow> appended L' B acc vs = appended L B acc vs"
  by (induction vs arbitrary: acc) (simp_all add: text_of_frame)

lemma appended_sep_frame: "frame L L' B \<Longrightarrow> appended_sep L' B sep acc vs = appended_sep L B sep acc vs"
  by (induction L' B sep acc vs rule: appended_sep.induct) (simp_all add: text_of_frame)

lemma content_length:
  fixes L :: "('w::len) state"
  assumes "wf_heap L" "content L B = Some c"
  shows "length c < 2 ^ LENGTH('w)"
proof -
  from assms(2) obtain r where r: "buffer_at L B = Some r"
    by (auto simp: content_def split: option.splits)
  from wf_content[OF assms(1) r] assms(2) obtain d where "c = take (unat (n r)) d" by auto
  then have "length c \<le> unat (n r)" by simp
  moreover have "unat (n r) < 2 ^ LENGTH('w)" by simp
  ultimately show ?thesis by linarith
qed

lemma display_self: "buffer_at L B = Some r \<Longrightarrow> display L (Some (VUserdata B)) = content L B"
  by (simp add: display_def)

lemma strings_fit_frame:
  fixes L :: "('w::len) state"
  assumes "strings_fit L vs" "frame L L' B" "wf_heap L'"
  shows "strings_fit L' vs"
  unfolding strings_fit_def list_all_iff
proof
  fix v assume v: "v \<in> set vs"
  show "length (text_of L' v) < 2 ^ LENGTH('w)"
  proof (cases "v = VUserdata B")
    case True
    show ?thesis
    proof (cases "buffer_at L' B")
      case None
      then have "buffer_at L B = None" using assms(2) by (simp add: frame_def)
      moreover have "pointer2str L' = pointer2str L" using assms(2) by (simp add: frame_def)
      ultimately have "text_of L' v = text_of L v"
        using True None by (simp add: text_of_def display_def)
      then show ?thesis using assms(1) v by (simp add: strings_fit_def list_all_iff)
    next
      case (Some r)
      then have "display L' (Some v) = content L' B" using True by (simp add: display_self)
      then show ?thesis using display_text_of[OF assms(3), of v] content_length[OF assms(3)]
        by simp
    qed
  next
    case False
    then show ?thesis using assms(1,2) v by (simp add: strings_fit_def list_all_iff text_of_frame)
  qed
qed

lemma args_Cons:
  assumes "1 \<le> i" "i \<le> numargs" "numargs \<le> int (length (stack L))"
  shows "args L i numargs = stack L ! nat (i - 1) # args L (i + 1) numargs"
    and "index2value L i = Some (stack L ! nat (i - 1))"
proof -
  have lt: "nat (i - 1) < length (take (nat numargs) (stack L))" using assms by simp
  have "drop (nat (i - 1)) (take (nat numargs) (stack L)) =
        take (nat numargs) (stack L) ! nat (i - 1) # drop (Suc (nat (i - 1))) (take (nat numargs) (stack L))"
    by (rule Cons_nth_drop_Suc[OF lt, symmetric])
  moreover have "Suc (nat (i - 1)) = nat (i + 1 - 1)" using assms by simp
  moreover have "take (nat numargs) (stack L) ! nat (i - 1) = stack L ! nat (i - 1)" using lt by simp
  ultimately show "args L i numargs = stack L ! nat (i - 1) # args L (i + 1) numargs"
    unfolding args_def by metis
  show "index2value L i = Some (stack L ! nat (i - 1))"
    using assms by (simp add: index2value_def lua_gettop_def)
qed

lemma args_Nil: "numargs < i \<Longrightarrow> 1 \<le> i \<Longrightarrow> args L i numargs = []"
  by (simp add: args_def)

lemma args_frame: "frame L L' B \<Longrightarrow> args L' i k = args L i k"
  by (simp add: args_def frame_def)

lemma addstrings_loop_unfold:
  "addstrings_loop L B i numargs =
     (if i \<le> numargs then
        (case tolstring L i of
           Inl x \<Rightarrow> Inl x
         | Inr ((str, len), L1) \<Rightarrow>
             (case add_str L1 B str len of
                Inl x \<Rightarrow> Inl x
              | Inr (u, L') \<Rightarrow> addstrings_loop L' B (i + 1) numargs))
      else Inr ((), L))"
  by (subst addstrings_loop.simps)
    (simp add: add_str_def split: sum.splits prod.splits option.splits)

lemma unat_of_nat_len:
  fixes s :: string
  shows "unat (word_of_nat (length s) :: 'w::len word) \<le> length s"
  by (simp add: unat_of_nat)

lemma appended_length: "length acc \<le> length (appended L B acc vs)"
proof (induction vs arbitrary: acc)
  case Nil
  then show ?case by simp
next
  case (Cons v vs)
  have "length acc \<le> length (acc @ (if v = VUserdata B then acc else text_of L v))" by simp
  also have "\<dots> \<le> length (appended L B (acc @ (if v = VUserdata B then acc else text_of L v)) vs)"
    by (rule Cons.IH)
  finally show ?case by simp
qed

lemma addstrings_loop_correct:
  fixes L :: "('w::len) state"
  assumes "wf_heap L" "buffer_at L B = Some r" "content L B = Some acc"
    "1 \<le> i" "numargs \<le> int (length (stack L))" "strings_fit L (args L i numargs)"
    "strings_stay L (args L i numargs)"
  shows "(\<exists>L'. addstrings_loop L B i numargs = Inr ((), L') \<and> wf_heap L' \<and> frame L L' B \<and>
               content L' B = Some (appended L B acc (args L i numargs)))
       \<or> (\<exists>L'. addstrings_loop L B i numargs = Inl (TooLarge, L') \<and> wf_heap L' \<and> frame L L' B \<and>
               2 ^ (LENGTH('w) - 1) < length (appended L B acc (args L i numargs)))"
  using assms
proof (induction k \<equiv> "nat (numargs + 1 - i)" arbitrary: L i acc r)
  case 0
  then have "numargs < i" by simp
  then show ?case using 0
    by (subst addstrings_loop_unfold, subst addstrings_loop_unfold) (simp add: args_Nil frame_refl)
next
  case (Suc k)
  then have le: "i \<le> numargs" by simp
  let ?v = "stack L ! nat (i - 1)"
  note ac = args_Cons[OF Suc.prems(4) le Suc.prems(5)]
  define t where "t = text_of L ?v"
  have disp: "display L (index2value L i) = Some t"
    using display_text_of[OF Suc.prems(1)] ac(2) by (simp add: t_def)
  have fit: "length t < 2 ^ LENGTH('w)" and fit': "strings_fit L (args L (i + 1) numargs)"
    using Suc.prems(6) ac(1) by (simp_all add: strings_fit_def t_def)
  define len :: "'w word" where "len = word_of_nat (length t)"
  have ulen: "unat len = length t" using fit by (simp add: len_def unat_of_nat)
  have tl: "tolstring L i = Inr ((pointer_to L (Some ?v) t, len), L)"
    unfolding tolstring_eq disp by (simp add: ac(2) len_def)
  have stay: "\<not> gc_runs L \<or> is_string ?v" and stay': "strings_stay L (args L (i + 1) numargs)"
    using Suc.prems(7) by (simp_all add: ac(1) strings_stay_Cons)
  note as = add_str_pointer_to[OF stay, of B t len]
  have tself: "?v = VUserdata B \<Longrightarrow> t = acc"
    using Suc.prems(2,3) display_text_of[OF Suc.prems(1), of ?v] by (simp add: t_def display_self)
  have app: "appended L B acc (args L i numargs) = appended L B (acc @ t) (args L (i + 1) numargs)"
    using tself by (auto simp: ac(1) t_def)
  from add_bytes_cases[OF Suc.prems(1,2,3), of len t]
  consider "add_str L B (pointer_to L (Some ?v) t) len = Inl (TooLarge, L)"
      "2 ^ (LENGTH('w) - 1) < length acc + length t"
    | L1 where "add_str L B (pointer_to L (Some ?v) t) len = Inr ((), L1)" "wf_heap L1" "frame L L1 B"
      "content L1 B = Some (acc @ t)" "buffer_at L1 B \<noteq> None"
    using ulen unfolding as by auto
  then show ?case
  proof cases
    case 1
    have "length (acc @ t) \<le> length (appended L B (acc @ t) (args L (i + 1) numargs))"
      by (rule appended_length)
    then have "2 ^ (LENGTH('w) - 1) < length (appended L B acc (args L i numargs))"
      using 1(2) by (simp add: app)
    then show ?thesis using le tl Suc.prems(1) 1(1)
      by (subst addstrings_loop_unfold, subst addstrings_loop_unfold) (simp add: frame_refl)
  next
    case 2
    from 2(5) obtain r1 where r1: "buffer_at L1 B = Some r1" by blast
    have k: "k = nat (numargs + 1 - (i + 1))" using Suc.hyps(2) by simp
    have st: "numargs \<le> int (length (stack L1))" using 2(3) Suc.prems(5) by (simp add: frame_def)
    have sf: "strings_fit L1 (args L1 (i + 1) numargs)"
      using strings_fit_frame[OF fit' 2(3) 2(2)] by (simp add: args_frame[OF 2(3)])
    have i1: "1 \<le> i + 1" using Suc.prems(4) by simp
    have ss: "strings_stay L1 (args L1 (i + 1) numargs)"
      using stay' by (simp add: args_frame[OF 2(3)] strings_stay_frame[OF 2(3)])
    from Suc.hyps(1)[OF k 2(2) r1 2(4) i1 st sf ss]
    have IH: "(\<exists>L'. addstrings_loop L1 B (i + 1) numargs = Inr ((), L') \<and> wf_heap L' \<and> frame L1 L' B \<and>
               content L' B = Some (appended L1 B (acc @ t) (args L1 (i + 1) numargs)))
       \<or> (\<exists>L'. addstrings_loop L1 B (i + 1) numargs = Inl (TooLarge, L') \<and> wf_heap L' \<and> frame L1 L' B \<and>
               2 ^ (LENGTH('w) - 1) < length (appended L1 B (acc @ t) (args L1 (i + 1) numargs)))" .
    have unf: "addstrings_loop L B i numargs = addstrings_loop L1 B (i + 1) numargs"
      using le tl 2(1) by (subst addstrings_loop_unfold) simp
    show ?thesis
      using IH frame_trans[OF 2(3)]
      by (auto simp: unf app appended_frame[OF 2(3)] args_frame[OF 2(3)])
  qed
qed


lemma index2value_push_top: "index2value (lua_push L v) (- 1) = Some v"
  by (simp add: index2value_def lua_push_def lua_gettop_def)

lemma bufflib_tostring_content:
  assumes "index2value L 1 = Some (VUserdata B)" "content L B = Some s"
  shows "bufflib_tostring L = Inr (1, lua_push L (VString s))"
  using assms
  by (auto simp: bufflib_tostring_def getbuffer_def content_def lua_pushlstring_def split: option.splits)

lemma obj_at_stack: "obj_at (L\<lparr>stack := st\<rparr>) a = obj_at L a"
  by (simp add: obj_at_def)

lemma buffer_at_stack: "buffer_at (L\<lparr>stack := st\<rparr>) a = buffer_at L a"
  by (simp add: buffer_at_def obj_at_stack)

lemma region_stack: "region (L\<lparr>stack := st\<rparr>) p = region L p"
  by (cases p) (simp_all add: region_def buffer_at_stack obj_at_stack)

lemma read_bytes_stack: "read_bytes (L\<lparr>stack := st\<rparr>) p k = read_bytes L p k"
  by (simp add: read_bytes_def region_stack)

lemma content_stack: "content (L\<lparr>stack := st\<rparr>) B = content L B"
  by (cases "buffer_at L B") (simp_all add: content_def buffer_at_stack read_bytes_stack)

lemma tostring_returned:
  assumes "content L B = Some s"
  shows "returned (bufflib_tostring (L\<lparr>stack := [VUserdata B]\<rparr>)) = Some (VString s)"
proof -
  have "index2value (L\<lparr>stack := [VUserdata B]\<rparr>) 1 = Some (VUserdata B)"
    by (simp add: index2value_def lua_gettop_def)
  moreover have "content (L\<lparr>stack := [VUserdata B]\<rparr>) B = Some s"
    using assms by (simp add: content_stack)
  ultimately show ?thesis
    by (simp add: bufflib_tostring_content returned_def index2value_push_top)
qed

lemma appended_no_self:
  "VUserdata B \<notin> set vs \<Longrightarrow> appended L B acc vs = acc @ concat (map (text_of L) vs)"
  by (induction vs arbitrary: acc) auto

lemma content_buffer: "content L B = Some c \<Longrightarrow> \<exists>r. buffer_at L B = Some r"
  by (auto simp: content_def split: option.splits)

lemma memcpy_None_room:
  assumes wf: "wf_heap L" and B: "buffer_at L B = Some r"
    and m: "memcpy L (ptr_add (b r) (unat (n r))) str k = None" and k: "k \<le> length str"
  shows "unat (sizeB r) < unat (n r) + k"
proof -
  from wf_content[OF wf B] obtain d where d: "region L (b r) = Some d" "offset (b r) = 0"
    "length d = unat (sizeB r)" by blast
  show ?thesis using m d k by (simp add: memcpy_def ptr_add_simps split: if_splits)
qed

lemma unat_add_wrap:
  fixes x y :: "'a::len word"
  assumes "unat (x + y) < unat x + unat y"
  shows "2 ^ LENGTH('a) \<le> unat x + unat y"
proof (rule ccontr)
  assume "\<not> 2 ^ LENGTH('a) \<le> unat x + unat y"
  then have "unat x + unat y < 2 ^ LENGTH('a)" by simp
  then have "unat (x + y) = unat x + unat y" by (simp add: unat_add_lem)
  then show False using assms by simp
qed

lemma unat_add_le: "unat (x + y) \<le> unat x + unat y" for x y :: "'a::len word"
  by (simp add: unat_word_ariths)

lemma add_sep_bytes_cases:
  fixes L :: "('w::len) state"
  assumes wf: "wf_heap L" and B: "buffer_at L B = Some r" and c: "content L B = Some c"
    and len: "unat len \<le> length str" and seplen: "unat seplen \<le> length sep"
  shows "(\<exists>e L'. add_sep_bytes L B str len sep seplen = Inl (e, L') \<and> wf_heap L' \<and> frame L L' B \<and>
               (e = TooLarge \<or> e = Fault) \<and>
               2 ^ (LENGTH('w) - 1) < length c + unat len + unat seplen) \<or>
         (\<exists>L'. add_sep_bytes L B str len sep seplen = Inr ((), L') \<and> wf_heap L' \<and> frame L L' B \<and>
               content L' B = Some (c @ take (unat len) str @ take (unat seplen) sep) \<and>
               buffer_at L' B \<noteq> None)"
proof -
  note lc = wf_content_length[OF wf B c]
  have half: "(2::nat) ^ (LENGTH('w) - 1) < 2 ^ LENGTH('w)"
    using two_power_len[where 'a='w] by simp
  from prepbuffsize_cases[OF wf B, of "len + seplen"]
  consider "prepbuffsize L B (len + seplen) = Inl (TooLarge, L)"
      "2 ^ (LENGTH('w) - 1) < unat (n r) + unat (len + seplen)"
    | p L2 r2 where "prepbuffsize L B (len + seplen) = Inr (p, L2)" "wf_heap L2" "frame L L2 B"
      "content L2 B = content L B" "buffer_at L2 B = Some r2" "n r2 = n r"
      "p = ptr_add (b r2) (unat (n r2))" "unat (n r) + unat (len + seplen) \<le> unat (sizeB r2)"
    by blast
  then show ?thesis
  proof cases
    case 1
    have "2 ^ (LENGTH('w) - 1) < length c + unat len + unat seplen"
      using 1(2) unat_add_le[of len seplen] lc by linarith
    then show ?thesis using 1(1) wf by (simp add: add_sep_bytes_def frame_refl)
  next
    case 2
    show ?thesis
    proof (cases "memcpy L2 p str (unat len)")
      case None
      from memcpy_None_room[OF 2(2) 2(5) None[unfolded 2(7)] len]
      have "unat (sizeB r2) < unat (n r) + unat len" by (simp add: 2(6))
      then have "unat (len + seplen) < unat len + unat seplen" using 2(8) by linarith
      from unat_add_wrap[OF this]
      have "2 ^ (LENGTH('w) - 1) < length c + unat len + unat seplen" using half by linarith
      then show ?thesis using 2(1,2,3) None by (simp add: add_sep_bytes_def)
    next
      case (Some L3)
      let ?L4 = "addsize L3 B len"
      from memcpy_addsize[OF 2(2) 2(5) Some[unfolded 2(7)]]
      obtain r4 where 4: "wf_heap ?L4" "frame L2 ?L4 B"
        "content ?L4 B = Some (c @ take (unat len) str)"
        "buffer_at ?L4 B = Some r4" "n r4 = n r2 + len" "unat (n r4) = unat (n r2) + unat len"
        "b r4 = b r2" "sizeB r4 = sizeB r2"
        using 2(4) c by auto
      have p': "ptr_add p (unat len) = ptr_add (b r4) (unat (n r4))"
        by (simp add: 2(7) ptr_add_simps 4(6,7))
      have f4: "frame L ?L4 B" by (rule frame_trans[OF 2(3) 4(2)])
      show ?thesis
      proof (cases "memcpy ?L4 (ptr_add p (unat len)) sep (unat seplen)")
        case None
        from memcpy_None_room[OF 4(1) 4(4) None[unfolded p'] seplen]
        have "unat (sizeB r2) < unat (n r) + unat len + unat seplen" by (simp add: 4(6,8) 2(6))
        then have "unat (len + seplen) < unat len + unat seplen" using 2(8) by linarith
        from unat_add_wrap[OF this]
        have "2 ^ (LENGTH('w) - 1) < length c + unat len + unat seplen" using half by linarith
        then show ?thesis using 2(1) Some None 4(1) f4 by (simp add: add_sep_bytes_def)
      next
        case m2: (Some L5)
        from memcpy_addsize[OF 4(1) 4(4) m2[unfolded p']]
        have "wf_heap (addsize L5 B seplen)" "frame ?L4 (addsize L5 B seplen) B"
          "content (addsize L5 B seplen) B = Some ((c @ take (unat len) str) @ take (unat seplen) sep)"
          "buffer_at (addsize L5 B seplen) B \<noteq> None"
          using 4(3) by auto
        then show ?thesis using 2(1) Some m2 frame_trans[OF f4]
          by (simp add: add_sep_bytes_def)
      qed
    qed
  qed
qed


lemma addsepstrings_loop_unfold:
  "addsepstrings_loop L B sep seplen i numargs =
     (if i < numargs then
        (case tolstring L i of
           Inl x \<Rightarrow> Inl x
         | Inr ((str, len), L1) \<Rightarrow>
             (case add_sep_str L1 B str len sep seplen of
                Inl x \<Rightarrow> Inl x
              | Inr (u, L') \<Rightarrow> addsepstrings_loop L' B sep seplen (i + 1) numargs))
      else Inr ((), L))"
  by (subst addsepstrings_loop.simps)
    (simp add: add_sep_str_def Let_def split: sum.splits prod.splits option.splits)

lemma gc_runs_addsize: "gc_runs (addsize L B len) = gc_runs L"
  by (simp add: addsize_def gc_runs_set_obj split: option.splits)

lemma add_sep_str_valid:
  assumes "\<not> gc_runs L \<or> a = None" "\<not> gc_runs L \<or> a' = None"
  shows "add_sep_str L B (CStr s a) len (CStr s' a') seplen = add_sep_bytes L B s len s' seplen"
proof (cases "prepbuffsize L B (len + seplen)")
  case (Inl x)
  then show ?thesis by (simp add: add_sep_str_def add_sep_bytes_def)
next
  case (Inr y)
  obtain p L2 where y: "y = (p, L2)" by (cases y)
  note g2 = prepbuffsize_gc_runs[OF Inr[unfolded y]]
  have v1: "cstr_valid L2 (CStr s a)"
    using assms(1) g2 by (auto simp: cstr_valid_def split: option.splits)
  show ?thesis
  proof (cases "memcpy L2 p s (unat len)")
    case None
    then show ?thesis using Inr y v1 by (simp add: add_sep_str_def add_sep_bytes_def memcpy_str_def)
  next
    case (Some L3)
    have "gc_runs (addsize L3 B len) = gc_runs L"
      using gc_runs_memcpy[OF Some] g2 by (simp add: gc_runs_addsize)
    then have v2: "cstr_valid (addsize L3 B len) (CStr s' a')"
      using assms(2) by (auto simp: cstr_valid_def split: option.splits)
    show ?thesis using Inr y v1 v2 Some
      by (simp add: add_sep_str_def add_sep_bytes_def memcpy_str_def)
  qed
qed

lemma add_sep_str_cases:
  "add_sep_str L B str len sep seplen = add_sep_bytes L B (bytes str) len (bytes sep) seplen \<or>
   (\<exists>p L2. prepbuffsize L B (len + seplen) = Inr (p, L2) \<and>
      add_sep_str L B str len sep seplen = Inl (Fault, L2)) \<or>
   (\<exists>p L2 L3. prepbuffsize L B (len + seplen) = Inr (p, L2) \<and>
      memcpy L2 p (bytes str) (unat len) = Some L3 \<and>
      add_sep_str L B str len sep seplen = Inl (Fault, addsize L3 B len))"
proof (cases "prepbuffsize L B (len + seplen)")
  case (Inl x)
  then show ?thesis by (simp add: add_sep_str_def add_sep_bytes_def)
next
  case (Inr y)
  obtain p L2 where y: "y = (p, L2)" by (cases y)
  show ?thesis
  proof (cases "cstr_valid L2 str")
    case False
    then show ?thesis using Inr y by (simp add: add_sep_str_def memcpy_str_def)
  next
    case v1: True
    show ?thesis
    proof (cases "memcpy L2 p (bytes str) (unat len)")
      case None
      then show ?thesis using Inr y v1 by (simp add: add_sep_str_def add_sep_bytes_def memcpy_str_def)
    next
      case (Some L3)
      then show ?thesis using Inr y v1
        by (cases "cstr_valid (addsize L3 B len) sep")
          (simp_all add: add_sep_str_def add_sep_bytes_def memcpy_str_def)
    qed
  qed
qed

lemma add_sep_str_Inr:
  "add_sep_str L B str len sep seplen = Inr y \<Longrightarrow>
   add_sep_bytes L B (bytes str) len (bytes sep) seplen = Inr y"
  using add_sep_str_cases[of L B str len sep seplen] by auto

lemma appended_seps_frame:
  "frame L L' B \<Longrightarrow> appended_seps L' B sep acc vs = appended_seps L B sep acc vs"
  by (induction vs arbitrary: acc) (simp_all add: text_of_frame)

lemma appended_seps_length: "length acc \<le> length (appended_seps L B sep acc vs)"
proof (induction vs arbitrary: acc)
  case Nil
  then show ?case by simp
next
  case (Cons v vs)
  have "length acc \<le> length (acc @ (if v = VUserdata B then acc else text_of L v) @ sep)" by simp
  also have "\<dots> \<le> length (appended_seps L B sep (acc @ (if v = VUserdata B then acc else text_of L v) @ sep) vs)"
    by (rule Cons.IH)
  finally show ?case by simp
qed

lemma addsepstrings_loop_correct:
  fixes L :: "('w::len) state"
  assumes "wf_heap L" "buffer_at L B = Some r" "content L B = Some acc"
    "1 \<le> i" "numargs \<le> int (length (stack L))" "strings_fit L (args L i (numargs - 1))"
    "strings_stay L (args L i (numargs - 1))" "\<not> gc_runs L \<or> a = None"
    "unat seplen = length sep"
  shows "(\<exists>L'. addsepstrings_loop L B (CStr sep a) seplen i numargs = Inr ((), L') \<and> wf_heap L' \<and>
               frame L L' B \<and> buffer_at L' B \<noteq> None \<and>
               content L' B = Some (appended_seps L B sep acc (args L i (numargs - 1))))
       \<or> (\<exists>e L'. addsepstrings_loop L B (CStr sep a) seplen i numargs = Inl (e, L') \<and> wf_heap L' \<and>
               frame L L' B \<and> (e = TooLarge \<or> e = Fault) \<and>
               2 ^ (LENGTH('w) - 1) < length (appended_seps L B sep acc (args L i (numargs - 1))))"
  using assms(1-8)
proof (induction k \<equiv> "nat (numargs - i)" arbitrary: L i acc r)
  case 0
  then have "numargs - 1 < i" by simp
  then show ?case using 0
    by (subst addsepstrings_loop_unfold, subst addsepstrings_loop_unfold) (simp add: args_Nil frame_refl)
next
  case (Suc k)
  then have lt: "i < numargs" and le: "i \<le> numargs - 1" by simp_all
  have top: "numargs - 1 \<le> int (length (stack L))" using Suc.prems(5) by simp
  let ?v = "stack L ! nat (i - 1)"
  note ac = args_Cons[OF Suc.prems(4) le top]
  define t where "t = text_of L ?v"
  have disp: "display L (index2value L i) = Some t"
    using display_text_of[OF Suc.prems(1)] ac(2) by (simp add: t_def)
  have fit: "length t < 2 ^ LENGTH('w)" and fit': "strings_fit L (args L (i + 1) (numargs - 1))"
    using Suc.prems(6) ac(1) by (simp_all add: strings_fit_def t_def)
  define len :: "'w word" where "len = word_of_nat (length t)"
  have ulen: "unat len = length t" using fit by (simp add: len_def unat_of_nat)
  have tl: "tolstring L i = Inr ((pointer_to L (Some ?v) t, len), L)"
    unfolding tolstring_eq disp by (simp add: ac(2) len_def)
  have stay: "\<not> gc_runs L \<or> is_string ?v"
    and stay': "strings_stay L (args L (i + 1) (numargs - 1))"
    using Suc.prems(7) by (simp_all add: ac(1) strings_stay_Cons)
  have as: "add_sep_str L B (pointer_to L (Some ?v) t) len (CStr sep a) seplen
            = add_sep_bytes L B t len sep seplen"
    unfolding pointer_to_def
    by (rule add_sep_str_valid)
      (use stay Suc.prems(8) in \<open>auto simp: is_string_def split: lua_value.splits\<close>)
  have tself: "?v = VUserdata B \<Longrightarrow> t = acc"
    using Suc.prems(2,3) display_text_of[OF Suc.prems(1), of ?v] by (simp add: t_def display_self)
  have app: "appended_seps L B sep acc (args L i (numargs - 1))
             = appended_seps L B sep (acc @ t @ sep) (args L (i + 1) (numargs - 1))"
    using tself by (auto simp: ac(1) t_def)
  from add_sep_bytes_cases[OF Suc.prems(1,2,3), of len t seplen sep]
  consider e L1 where "add_sep_str L B (pointer_to L (Some ?v) t) len (CStr sep a) seplen = Inl (e, L1)"
      "wf_heap L1" "frame L L1 B"
      "e = TooLarge \<or> e = Fault" "2 ^ (LENGTH('w) - 1) < length acc + length t + length sep"
    | L1 where "add_sep_str L B (pointer_to L (Some ?v) t) len (CStr sep a) seplen = Inr ((), L1)"
      "wf_heap L1" "frame L L1 B"
      "content L1 B = Some (acc @ t @ sep)" "buffer_at L1 B \<noteq> None"
    using ulen assms(9) unfolding as by auto
  then show ?case
  proof cases
    case 1
    have "length (acc @ t @ sep) \<le> length (appended_seps L B sep (acc @ t @ sep) (args L (i + 1) (numargs - 1)))"
      by (rule appended_seps_length)
    then have "2 ^ (LENGTH('w) - 1) < length (appended_seps L B sep acc (args L i (numargs - 1)))"
      using 1(5) by (simp add: app)
    then show ?thesis using lt tl 1(1,2,3,4)
      by (subst addsepstrings_loop_unfold, subst addsepstrings_loop_unfold) auto
  next
    case 2
    from 2(5) obtain r1 where r1: "buffer_at L1 B = Some r1" by blast
    have k: "k = nat (numargs - (i + 1))" using Suc.hyps(2) by simp
    have st: "numargs \<le> int (length (stack L1))" using 2(3) Suc.prems(5) by (simp add: frame_def)
    have sf: "strings_fit L1 (args L1 (i + 1) (numargs - 1))"
      using strings_fit_frame[OF fit' 2(3) 2(2)] by (simp add: args_frame[OF 2(3)])
    have i1: "1 \<le> i + 1" using Suc.prems(4) by simp
    have ss: "strings_stay L1 (args L1 (i + 1) (numargs - 1))"
      using stay' by (simp add: args_frame[OF 2(3)] strings_stay_frame[OF 2(3)])
    have ga: "\<not> gc_runs L1 \<or> a = None" using Suc.prems(8) 2(3) by (simp add: frame_def)
    note IH = Suc.hyps(1)[OF k 2(2) r1 2(4) i1 st sf ss ga]
    have unf: "addsepstrings_loop L B (CStr sep a) seplen i numargs
               = addsepstrings_loop L1 B (CStr sep a) seplen (i + 1) numargs"
      using lt tl 2(1) by (subst addsepstrings_loop_unfold) simp
    show ?thesis
      using IH frame_trans[OF 2(3)]
      unfolding unf app appended_seps_frame[OF 2(3)] args_frame[OF 2(3)]
      by blast
  qed
qed

lemma appended_sep_split:
  "vs \<noteq> [] \<Longrightarrow>
   appended_sep L B sep acc vs = appended L B (appended_seps L B sep acc (butlast vs)) [last vs]"
  by (induction L B sep acc vs rule: appended_sep.induct) simp_all

lemma appended_sep_no_self:
  "VUserdata B \<notin> set (v # vs) \<Longrightarrow>
   appended_sep L B sep acc (v # vs) = acc @ text_of L v @ concat (map (\<lambda>x. sep @ text_of L x) vs)"
  by (induction vs arbitrary: acc v) auto


lemma args_subset:
  assumes "lo \<le> lo'" "hi' \<le> hi"
  shows "set (args L lo' hi') \<subseteq> set (args L lo hi)"
proof -
  let ?xs = "stack L"
  have a: "nat (lo - 1) \<le> nat (lo' - 1)" and h: "nat hi' \<le> nat hi" using assms by simp_all
  have 1: "set (drop (nat (lo' - 1)) (take (nat hi') ?xs)) \<subseteq> set (drop (nat (lo - 1)) (take (nat hi') ?xs))"
    by (rule set_drop_subset_set_drop[OF a])
  have e: "take (nat hi') ?xs = take (nat hi') (take (nat hi) ?xs)"
    using h by (simp add: min_def)
  have "drop (nat (lo - 1)) (take (nat hi') ?xs)
             = take (nat hi' - nat (lo - 1)) (drop (nat (lo - 1)) (take (nat hi) ?xs))"
    by (subst e) (rule drop_take)
  then have 2: "set (drop (nat (lo - 1)) (take (nat hi') ?xs)) \<subseteq> set (drop (nat (lo - 1)) (take (nat hi) ?xs))"
    using set_take_subset by metis
  show ?thesis unfolding args_def using 1 2 by (rule subset_trans)
qed

lemma strings_fit_subset: "strings_fit L vs \<Longrightarrow> set ws \<subseteq> set vs \<Longrightarrow> strings_fit L ws"
  by (auto simp: strings_fit_def list_all_iff)

lemma strings_stay_subset: "strings_stay L vs \<Longrightarrow> set ws \<subseteq> set vs \<Longrightarrow> strings_stay L ws"
  by (auto simp: strings_stay_def list_all_iff)

lemma args_single:
  assumes "1 \<le> k" "k \<le> int (length (stack L))"
  shows "args L k k = [stack L ! nat (k - 1)]"
proof -
  have "args L (k + 1) k = []" using assms(1) by (simp add: args_Nil)
  then show ?thesis using args_Cons(1)[OF assms(1) order_refl assms(2)] by simp
qed

lemma args_snoc:
  assumes "1 \<le> lo" "lo \<le> hi" "hi \<le> int (length (stack L))"
  shows "args L lo hi = args L lo (hi - 1) @ [stack L ! nat (hi - 1)]"
proof -
  let ?xs = "stack L"
  have lt: "nat (hi - 1) < length ?xs" using assms by simp
  have t: "take (nat hi) ?xs = take (nat (hi - 1)) ?xs @ [?xs ! nat (hi - 1)]"
    using take_Suc_conv_app_nth[OF lt] assms by (simp add: Suc_nat_eq_nat_zadd1)
  have "nat (lo - 1) \<le> length (take (nat (hi - 1)) ?xs)" using assms by simp
  then show ?thesis by (simp add: args_def t)
qed

lemma addsepstrings_correct:
  fixes L :: "('w::len) state"
  assumes wf: "wf_heap L" and B: "buffer_at L B = Some r" and c: "content L B = Some acc"
    and top: "2 \<le> lua_gettop L"
    and fit: "strings_fit L (args L 2 (lua_gettop L))"
    and stay: "strings_stay L (args L 2 (lua_gettop L))"
    and sep: "sep = text_of L (stack L ! 1)"
    and fin: "fin = appended L B (appended_seps L B sep acc (args L 3 (lua_gettop L - 1)))
                      [stack L ! nat (lua_gettop L - 1)]"
  shows "(\<exists>L'. addsepstrings L B = Inr ((), L') \<and> wf_heap L' \<and> frame L L' B \<and>
               buffer_at L' B \<noteq> None \<and> content L' B = Some fin)
       \<or> (\<exists>e L'. addsepstrings L B = Inl (e, L') \<and> wf_heap L' \<and> frame L L' B \<and>
               (e = TooLarge \<or> e = Fault) \<and> 2 ^ (LENGTH('w) - 1) < length fin)"
proof -
  define numargs where "numargs = lua_gettop L"
  have na: "numargs \<le> int (length (stack L))" "2 \<le> numargs"
    using top by (simp_all add: numargs_def lua_gettop_def)
  let ?sv = "stack L ! 1"
  have i2: "index2value L 2 = Some ?sv" using na by (simp add: index2value_def lua_gettop_def)
  have a2: "args L 2 numargs = ?sv # args L 3 numargs"
    using args_Cons(1)[of 2 numargs L] na by simp
  have fs: "length sep < 2 ^ LENGTH('w)"
    using fit a2 by (simp add: strings_fit_def sep numargs_def)
  define seplen :: "'w word" where "seplen = word_of_nat (length sep)"
  have usep: "unat seplen = length sep" using fs by (simp add: seplen_def unat_of_nat)
  define a where "a = (case ?sv of VString x \<Rightarrow> None | _ \<Rightarrow> Some (length (heap L)))"
  have pt: "pointer_to L (Some ?sv) x = CStr x a" for x
    by (simp add: pointer_to_def a_def split: lua_value.splits)
  have t2: "tolstring L 2 = Inr ((CStr sep a, seplen), L)"
    using display_text_of[OF wf, of ?sv] pt by (simp add: tolstring_eq i2 sep seplen_def)
  have ga: "\<not> gc_runs L \<or> a = None"
    using stay a2 by (auto simp: numargs_def strings_stay_Cons is_string_def a_def split: lua_value.splits)
  have f3: "strings_fit L (args L 3 (numargs - 1))"
    by (rule strings_fit_subset[OF fit[folded numargs_def] args_subset]) simp_all
  have s3: "strings_stay L (args L 3 (numargs - 1))"
    by (rule strings_stay_subset[OF stay[folded numargs_def] args_subset]) simp_all
  let ?v = "stack L ! nat (numargs - 1)"
  have sub: "set [?v] \<subseteq> set (args L 2 numargs)"
  proof -
    have "set (args L numargs numargs) \<subseteq> set (args L 2 numargs)"
      by (rule args_subset) (use na in simp_all)
    then show ?thesis using args_single[of numargs L] na by simp
  qed
  have fv: "strings_fit L [?v]"
    by (rule strings_fit_subset[OF fit[folded numargs_def] sub])
  have sv: "\<not> gc_runs L \<or> is_string ?v"
    using strings_stay_subset[OF stay[folded numargs_def] sub]
    by (simp add: strings_stay_def split: if_splits)
  define mid where "mid = appended_seps L B sep acc (args L 3 (numargs - 1))"
  have finm: "fin = mid @ (if ?v = VUserdata B then mid else text_of L ?v)"
    by (simp add: fin mid_def numargs_def)
  from addsepstrings_loop_correct[OF wf B c _ na(1) f3 s3 ga usep]
  consider L2 where "addsepstrings_loop L B (CStr sep a) seplen 3 numargs = Inr ((), L2)" "wf_heap L2"
      "frame L L2 B" "buffer_at L2 B \<noteq> None" "content L2 B = Some mid"
    | e L2 where "addsepstrings_loop L B (CStr sep a) seplen 3 numargs = Inl (e, L2)" "wf_heap L2"
      "frame L L2 B" "e = TooLarge \<or> e = Fault" "2 ^ (LENGTH('w) - 1) < length mid"
    unfolding mid_def by fastforce
  then show ?thesis
  proof cases
    case 2
    have "length mid \<le> length fin" by (simp add: finm)
    then have "2 ^ (LENGTH('w) - 1) < length fin" using 2(5) by linarith
    then show ?thesis using 2(1-4) t2
      by (auto simp: addsepstrings_def Let_def numargs_def[symmetric])
  next
    case 1
    from 1(4) obtain r2 where r2: "buffer_at L2 B = Some r2" by blast
    have st: "stack L2 = stack L" using 1(3) by (simp add: frame_def)
    have iv: "index2value L2 numargs = Some ?v"
      using na by (simp add: index2value_def lua_gettop_def st)
    define t where "t = text_of L2 ?v"
    have tdef: "t = (if ?v = VUserdata B then mid else text_of L ?v)"
      using display_text_of[OF 1(2), of ?v] r2 1(5) text_of_frame[OF 1(3), of ?v]
      by (auto simp: t_def display_self)
    have ft: "length t < 2 ^ LENGTH('w)"
      using strings_fit_frame[OF fv 1(3) 1(2)] by (simp add: strings_fit_def t_def)
    define len :: "'w word" where "len = word_of_nat (length t)"
    have ulen: "unat len = length t" using ft by (simp add: len_def unat_of_nat)
    have tl: "tolstring L2 numargs = Inr ((pointer_to L2 (Some ?v) t, len), L2)"
      using display_text_of[OF 1(2), of ?v] by (simp add: tolstring_eq iv t_def len_def)
    have "\<not> gc_runs L2 \<or> is_string ?v" using sv 1(3) by (simp add: frame_def)
    note as = add_str_pointer_to[OF this, of B t len]
    have "addsepstrings L B = add_str L2 B (pointer_to L2 (Some ?v) t) len"
      using t2 1(1) tl
      by (simp add: addsepstrings_def Let_def numargs_def[symmetric] add_str_def
          split: sum.splits prod.splits option.splits)
    then have unf: "addsepstrings L B = add_bytes L2 B t len" by (simp add: as)
    from add_bytes_cases[OF 1(2) r2 1(5), of len t]
    consider "add_bytes L2 B t len = Inl (TooLarge, L2)" "2 ^ (LENGTH('w) - 1) < length mid + length t"
      | L3 where "add_bytes L2 B t len = Inr ((), L3)" "wf_heap L3" "frame L2 L3 B"
        "content L3 B = Some (mid @ t)" "buffer_at L3 B \<noteq> None"
      using ulen by auto
    then show ?thesis
    proof cases
      case 1
      then show ?thesis using \<open>wf_heap L2\<close> \<open>frame L L2 B\<close>
        by (simp add: unf finm tdef[symmetric])
    next
      case 2
      then show ?thesis using frame_trans[OF \<open>frame L L2 B\<close>]
        by (simp add: unf finm tdef[symmetric])
    qed
  qed
qed

lemma raised_None: "raised res = None \<Longrightarrow> \<exists>x L'. res = Inr (x, L')"
  by (cases res) (auto simp: raised_def)

lemma bufflib_equal_content:
  assumes "index2value L 1 = Some (VUserdata X)" "index2value L 2 = Some (VUserdata Y)"
    "content L X = Some sx" "content L Y = Some sy"
  shows "bufflib_equal L =
         Inr (1, lua_push (lua_push (lua_push L (VString sx)) (VString sy)) (VBoolean (sx = sy)))"
proof -
  from assms obtain rx ry where r: "buffer_at L X = Some rx" "buffer_at L Y = Some ry"
    "read_bytes L (b rx) (unat (n rx)) = Some sx" "read_bytes L (b ry) (unat (n ry)) = Some sy"
    by (auto simp: content_def split: option.splits)
  have r2: "read_bytes (lua_push L v) p k = read_bytes L p k" for v p k
    by (simp add: lua_push_def read_bytes_stack)
  have eq: "lua_rawequal (lua_push (lua_push L (VString sx)) (VString sy)) (- 1) (- 2) = (sx = sy)"
    by (auto simp: lua_rawequal_def index2value_def lua_gettop_def lua_push_def nth_append)
  show ?thesis
    using assms(1,2) r
    by (simp add: bufflib_equal_def getbuffer_def lua_pushlstring_def r2 eq)
qed

lemma same_buffers_refl: "same_buffers L L"
  by (simp add: same_buffers_def)

lemma same_buffers_trans: "same_buffers L L1 \<Longrightarrow> same_buffers L1 L2 \<Longrightarrow> same_buffers L L2"
  by (simp add: same_buffers_def)

lemma buffer_at_set_obj:
  "buffer_at (set_obj L a ob) x =
     (if x = a \<and> a < length (heap L) then (case ob of OBuffer r \<Rightarrow> Some r | _ \<Rightarrow> None)
      else buffer_at L x)"
  by (simp add: buffer_at_def obj_at_set_obj)

lemma stack_set_obj: "stack (set_obj L a ob) = stack L"
  by (simp add: set_obj_def)

lemma set_region_same:
  assumes "region L p = Some d"
  shows "same_buffers L (set_region L p d')"
proof (cases p)
  case (Initb a off)
  then obtain r where r: "buffer_at L a = Some r"
    using assms by (auto simp: region_def split: option.splits)
  then have "a < length (heap L)" by (simp add: buffer_at_Some_iff)
  then show ?thesis using Initb r
    by (simp add: same_buffers_def set_region_def buffer_at_set_obj stack_set_obj)
next
  case (Block k off)
  then have "buffer_at L k = None"
    using assms by (auto simp: region_def buffer_at_def split: option.splits obj.splits)
  then show ?thesis using Block
    by (simp add: same_buffers_def set_region_def buffer_at_set_obj stack_set_obj)
qed

lemma memcpy_same: "memcpy L p s k = Some L' \<Longrightarrow> same_buffers L L'"
  by (auto simp: memcpy_def set_region_same split: option.splits if_splits)

lemma addsize_same: "same_buffers L (addsize L B len)"
proof (cases "buffer_at L B")
  case None
  then show ?thesis by (simp add: addsize_def same_buffers_refl)
next
  case (Some r)
  then have "B < length (heap L)" by (simp add: buffer_at_Some_iff)
  then show ?thesis using Some
    by (simp add: addsize_def same_buffers_def buffer_at_set_obj stack_set_obj)
qed

lemma buff_unref_fields: "heap (buff_unref L B) = heap L" "stack (buff_unref L B) = stack L"
  by (simp_all add: buff_unref_def luaL_unref_def split: option.splits)

lemma prepbuffsize_same:
  assumes "prepbuffsize L B sz = Inr (p, L')"
  shows "same_buffers L L'"
proof -
  from assms obtain r where r: "buffer_at L B = Some r"
    by (auto simp: prepbuffsize_def split: option.splits)
  then have Blt: "B < length (heap L)" by (simp add: buffer_at_Some_iff)
  show ?thesis
  proof (cases "sizeB r - n r < sz")
    case False
    then show ?thesis using assms r by (simp add: prepbuffsize_def same_buffers_refl)
  next
    case True
    define newsize where "newsize = (if sizeB r * 2 - n r < sz then n r + sz else sizeB r * 2)"
    let ?L1 = "snd (lua_newuserdata L (unat newsize))"
    let ?nb = "fst (lua_newuserdata L (unat newsize))"
    from assms r True obtain old L2 rf L3 where
      m: "memcpy ?L1 ?nb old (unat (n r)) = Some L2"
      and rf: "luaL_ref (buff_unref L2 B) = Some (rf, L3)"
      and L': "L' = set_obj L3 B (OBuffer (r\<lparr>ref := rf, b := ?nb, sizeB := newsize\<rparr>))"
      by (auto simp: prepbuffsize_def Let_def newsize_def split: if_splits option.splits prod.splits)
    have s1: "stack ?L1 = stack L @ [VUserdata (length (heap L))]"
      and b1: "\<And>a. buffer_at ?L1 a = buffer_at L a"
      by (auto simp: lua_newuserdata_def Let_def buffer_at_def obj_at_def nth_append)
    from memcpy_same[OF m] have s2: "stack L2 = stack ?L1"
      and b2: "\<And>a. (buffer_at L2 a = None) = (buffer_at ?L1 a = None)"
      by (simp_all add: same_buffers_def)
    have h3: "heap L3 = heap L2" and s3: "stack L3 = stack L"
      using rf s2 s1
      by (auto simp: luaL_ref_def lua_pop_def buff_unref_fields Let_def split: list.splits if_splits)
    have b3: "buffer_at L3 a = buffer_at L2 a" for a
      by (simp add: buffer_at_def obj_at_def h3)
    have "B < length (heap L3)"
      using b2[of B] b1[of B] r by (auto simp: b3[symmetric] buffer_at_Some_iff)
    then show ?thesis
      using r by (auto simp: same_buffers_def L' buffer_at_set_obj stack_set_obj s3 b3 b2 b1)
  qed
qed

lemma tolstring_state: "tolstring L i = Inr (x, L1) \<Longrightarrow> L1 = L"
  by (auto simp: tolstring_eq split: option.splits)

lemma add_bytes_same:
  assumes "add_bytes L B str len = Inr (u, L')"
  shows "same_buffers L L'"
proof -
  from assms obtain p L2 L3 where 1: "prepbuffsize L B len = Inr (p, L2)"
    and 2: "memcpy L2 p str (unat len) = Some L3" and 3: "L' = addsize L3 B len"
    by (auto simp: add_bytes_def split: sum.splits option.splits)
  show ?thesis unfolding 3
    by (rule same_buffers_trans[OF prepbuffsize_same[OF 1]
          same_buffers_trans[OF memcpy_same[OF 2] addsize_same]])
qed

lemma add_sep_bytes_same:
  assumes "add_sep_bytes L B str len sep seplen = Inr (u, L')"
  shows "same_buffers L L'"
proof -
  from assms obtain p L2 L3 L5 where 1: "prepbuffsize L B (len + seplen) = Inr (p, L2)"
    and 2: "memcpy L2 p str (unat len) = Some L3"
    and 3: "memcpy (addsize L3 B len) (ptr_add p (unat len)) sep (unat seplen) = Some L5"
    and 4: "L' = addsize L5 B seplen"
    by (auto simp: add_sep_bytes_def split: sum.splits option.splits)
  show ?thesis unfolding 4
    by (rule same_buffers_trans[OF prepbuffsize_same[OF 1]
          same_buffers_trans[OF memcpy_same[OF 2]
            same_buffers_trans[OF addsize_same
              same_buffers_trans[OF memcpy_same[OF 3] addsize_same]]]])
qed

lemma addstrings_loop_same:
  "addstrings_loop L B i numargs = Inr (u, L') \<Longrightarrow> same_buffers L L'"
proof (induction k \<equiv> "nat (numargs + 1 - i)" arbitrary: L i)
  case 0
  then have "\<not> i \<le> numargs" by simp
  then show ?case using 0(2) by (subst (asm) addstrings_loop_unfold) (simp add: same_buffers_refl)
next
  case (Suc k)
  then have le: "i \<le> numargs" by simp
  from Suc.prems le obtain str len L1 L2 where t: "tolstring L i = Inr ((str, len), L1)"
    and a: "add_str L1 B str len = Inr ((), L2)"
    and l: "addstrings_loop L2 B (i + 1) numargs = Inr (u, L')"
    by (subst (asm) addstrings_loop_unfold) (auto split: sum.splits)
  have k: "k = nat (numargs + 1 - (i + 1))" using Suc.hyps(2) by simp
  have "same_buffers L L2" using add_bytes_same[OF add_str_Inr[OF a]] tolstring_state[OF t] by simp
  then show ?case using Suc.hyps(1)[OF k l] by (rule same_buffers_trans)
qed

lemma addsepstrings_loop_same:
  "addsepstrings_loop L B sep seplen i numargs = Inr (u, L') \<Longrightarrow> same_buffers L L'"
proof (induction k \<equiv> "nat (numargs - i)" arbitrary: L i)
  case 0
  then have "\<not> i < numargs" by simp
  then show ?case using 0(2) by (subst (asm) addsepstrings_loop_unfold) (simp add: same_buffers_refl)
next
  case (Suc k)
  then have le: "i < numargs" by simp
  from Suc.prems le obtain str len L1 L2 where t: "tolstring L i = Inr ((str, len), L1)"
    and a: "add_sep_str L1 B str len sep seplen = Inr ((), L2)"
    and l: "addsepstrings_loop L2 B sep seplen (i + 1) numargs = Inr (u, L')"
    by (subst (asm) addsepstrings_loop_unfold) (auto split: sum.splits)
  have k: "k = nat (numargs - (i + 1))" using Suc.hyps(2) by simp
  have "same_buffers L L2"
    using add_sep_bytes_same[OF add_sep_str_Inr[OF a]] tolstring_state[OF t] by simp
  then show ?case using Suc.hyps(1)[OF k l] by (rule same_buffers_trans)
qed

lemma addstrings_same: "addstrings L B i offs = Inr (u, L') \<Longrightarrow> same_buffers L L'"
  by (simp add: addstrings_def Let_def addstrings_loop_same)

lemma addsepstrings_same:
  assumes "addsepstrings L B = Inr (u, L')"
  shows "same_buffers L L'"
proof -
  from assms obtain sep seplen L1 L2 str len L3 where
    1: "tolstring L 2 = Inr ((sep, seplen), L1)"
    and 2: "addsepstrings_loop L1 B sep seplen 3 (lua_gettop L) = Inr ((), L2)"
    and 3: "tolstring L2 (lua_gettop L) = Inr ((str, len), L3)"
    and 4: "add_str L3 B str len = Inr ((), L')"
    by (auto simp: addsepstrings_def Let_def add_str_def split: sum.splits option.splits)
  have "same_buffers L L2" using addsepstrings_loop_same[OF 2] tolstring_state[OF 1] by simp
  moreover have "same_buffers L2 L'"
    using add_bytes_same[OF add_str_Inr[OF 4]] tolstring_state[OF 3] by simp
  ultimately show ?thesis by (rule same_buffers_trans)
qed

lemma buffinit_same:
  assumes "buffer_at L B \<noteq> None"
  shows "same_buffers L (buffinit L B)"
proof -
  from assms obtain r where r: "buffer_at L B = Some r" by blast
  then have "B < length (heap L)" by (simp add: buffer_at_Some_iff)
  then show ?thesis using r
    by (simp add: buffinit_def same_buffers_def buffer_at_set_obj stack_set_obj)
qed

lemma buff_unref_same: "same_buffers L (buff_unref L B)"
  by (simp add: same_buffers_def buffer_at_def obj_at_def buff_unref_fields)

lemma getbuffer_Inr: "getbuffer L i = Inr B \<Longrightarrow> index2value L i = Some (VUserdata B) \<and> buffer_at L B \<noteq> None"
  by (auto simp: getbuffer_def split: option.splits lua_value.splits)

lemma same_buffers_index: "same_buffers L L' \<Longrightarrow> index2value L' i = index2value L i"
  by (simp add: same_buffers_def index2value_def lua_gettop_def)

lemma pushbuffer_returned:
  "returned (Inr (pushbuffer L i)) = Some (case index2value L i of Some v \<Rightarrow> v | None \<Rightarrow> VNil)"
  by (simp add: returned_def pushbuffer_def lua_pushvalue_def index2value_push_top)

lemma same_buffers_push: "same_buffers L L' \<Longrightarrow> (\<forall>a. (buffer_at (lua_pushvalue L' i) a = None) = (buffer_at L a = None))"
  by (simp add: same_buffers_def lua_pushvalue_def lua_push_def buffer_at_stack)

lemma final_state_Inl: "final_state (Inl x) = snd x"
  by (cases x) (simp add: final_state_def)

lemma final_state_Inr: "final_state (Inr (x, L)) = L"
  by (simp add: final_state_def)

lemma final_state_cases:
  "final_state res = L' \<Longrightarrow> (\<exists>e. res = Inl (e, L')) \<or> (\<exists>x. res = Inr (x, L'))"
  by (cases res) (auto simp: final_state_def)

lemma wf_heap_cong:
  assumes "heap L' = heap L" "LUAL_BUFFERSIZE L' = LUAL_BUFFERSIZE L"
  shows "wf_heap L' = wf_heap L"
proof -
  have o: "obj_at L' = obj_at L" by (rule ext) (simp add: obj_at_def assms)
  have "buffer_ok L' = buffer_ok L"
    by (intro ext) (simp add: buffer_ok_def o assms cong: cptr.case_cong)
  moreover have "buffer_at L' = buffer_at L" by (rule ext) (simp add: buffer_at_def o)
  ultimately show ?thesis by (simp add: wf_heap_iff)
qed

lemma wf_heap_push: "wf_heap (lua_push L v) = wf_heap L"
  by (rule wf_heap_cong) (simp_all add: lua_push_def)

lemma wf_heap_pushvalue: "wf_heap (lua_pushvalue L i) = wf_heap L"
  by (simp add: lua_pushvalue_def wf_heap_push)

lemma wf_heap_stack: "wf_heap (L\<lparr>stack := st\<rparr>) = wf_heap L"
  by (rule wf_heap_cong) simp_all

lemma tolstring_wf:
  fixes L :: "('w::len) state"
  assumes "wf_heap L"
  shows "\<exists>t len. tolstring L i = Inr ((t, len), L) \<and> unat (len :: 'w word) \<le> length (bytes t)"
proof -
  from display_Some[OF assms] obtain t where "display L (index2value L i) = Some t" by blast
  then show ?thesis by (simp add: tolstring_eq unat_of_nat_len bytes_pointer_to)
qed

lemma frame_buffer: "frame L L' B \<Longrightarrow> buffer_at L B \<noteq> None \<Longrightarrow> buffer_at L' B \<noteq> None"
  by (simp add: frame_def)

lemma add_str_outcome:
  fixes L :: "('w::len) state"
  assumes wf: "wf_heap L" and B: "buffer_at L B \<noteq> None" and len: "unat len \<le> length (bytes t)"
  shows "(\<exists>e L1. add_str L B t len = Inl (e, L1) \<and> wf_heap L1 \<and> frame L L1 B) \<or>
         (\<exists>L1. add_str L B t len = Inr ((), L1) \<and> wf_heap L1 \<and> frame L L1 B \<and>
               buffer_at L1 B \<noteq> None)"
proof -
  from B obtain r where r: "buffer_at L B = Some r" by blast
  from wf_content[OF wf r] obtain c where c: "content L B = Some c" by blast
  from add_str_cases[of L B t len]
  consider "add_str L B t len = add_bytes L B (bytes t) len"
    | p L2 where "prepbuffsize L B len = Inr (p, L2)" "add_str L B t len = Inl (Fault, L2)"
    by blast
  then show ?thesis
  proof cases
    case 1
    from add_bytes_cases[OF wf r c len] show ?thesis
      unfolding 1 using wf by (auto simp: frame_refl)
  next
    case 2
    from prepbuffsize_cases[OF wf r, of len] 2(1) have "wf_heap L2" "frame L L2 B" by auto
    then show ?thesis using 2(2) by simp
  qed
qed

lemma add_sep_str_outcome:
  fixes L :: "('w::len) state"
  assumes wf: "wf_heap L" and B: "buffer_at L B \<noteq> None" and len: "unat len \<le> length (bytes t)"
    and seplen: "unat seplen \<le> length (bytes sep)"
  shows "(\<exists>e L1. add_sep_str L B t len sep seplen = Inl (e, L1) \<and> wf_heap L1 \<and> frame L L1 B) \<or>
         (\<exists>L1. add_sep_str L B t len sep seplen = Inr ((), L1) \<and> wf_heap L1 \<and> frame L L1 B \<and>
               buffer_at L1 B \<noteq> None)"
proof -
  from B obtain r where r: "buffer_at L B = Some r" by blast
  from wf_content[OF wf r] obtain c where c: "content L B = Some c" by blast
  from add_sep_str_cases[of L B t len sep seplen]
  consider "add_sep_str L B t len sep seplen = add_sep_bytes L B (bytes t) len (bytes sep) seplen"
    | p L2 where "prepbuffsize L B (len + seplen) = Inr (p, L2)"
        "add_sep_str L B t len sep seplen = Inl (Fault, L2)"
    | p L2 L3 where "prepbuffsize L B (len + seplen) = Inr (p, L2)"
        "memcpy L2 p (bytes t) (unat len) = Some L3"
        "add_sep_str L B t len sep seplen = Inl (Fault, addsize L3 B len)"
    by blast
  then show ?thesis
  proof cases
    case 1
    from add_sep_bytes_cases[OF wf r c len seplen] show ?thesis
      unfolding 1 by auto
  next
    case 2
    from prepbuffsize_cases[OF wf r, of "len + seplen"] 2(1) have "wf_heap L2" "frame L L2 B" by auto
    then show ?thesis using 2(2) by simp
  next
    case 3
    from prepbuffsize_cases[OF wf r, of "len + seplen"] 3(1) obtain r2 where
      p: "wf_heap L2" "frame L L2 B" "buffer_at L2 B = Some r2" "p = ptr_add (b r2) (unat (n r2))"
      by auto
    from memcpy_addsize[OF p(1) p(3) 3(2)[unfolded p(4)]]
    have "wf_heap (addsize L3 B len)" "frame L2 (addsize L3 B len) B" by simp_all
    then show ?thesis using 3(3) frame_trans[OF p(2)] by simp
  qed
qed

lemma addstrings_loop_wf:
  fixes L :: "('w::len) state"
  assumes "wf_heap L" "buffer_at L B \<noteq> None"
  shows "wf_heap (final_state (addstrings_loop L B i numargs)) \<and>
         frame L (final_state (addstrings_loop L B i numargs)) B"
  using assms
proof (induction k \<equiv> "nat (numargs + 1 - i)" arbitrary: L i)
  case 0
  then have "\<not> i \<le> numargs" by simp
  then show ?case using 0
    by (subst addstrings_loop_unfold, subst addstrings_loop_unfold) (simp add: final_state_def frame_refl)
next
  case (Suc k)
  then have le: "i \<le> numargs" by simp
  from tolstring_wf[OF Suc.prems(1), of i] obtain t and len :: "'w word"
    where t: "tolstring L i = Inr ((t, len), L)" "unat len \<le> length (bytes t)" by blast
  from add_str_outcome[OF Suc.prems(1,2) t(2)]
  consider e L1 where "add_str L B t len = Inl (e, L1)" "wf_heap L1" "frame L L1 B"
    | L1 where "add_str L B t len = Inr ((), L1)" "wf_heap L1" "frame L L1 B" "buffer_at L1 B \<noteq> None"
    by blast
  then show ?case
  proof cases
    case 1
    then show ?thesis using le t(1)
      by (subst addstrings_loop_unfold, subst addstrings_loop_unfold) (simp add: final_state_def)
  next
    case 2
    have k: "k = nat (numargs + 1 - (i + 1))" using Suc.hyps(2) by simp
    have unf: "addstrings_loop L B i numargs = addstrings_loop L1 B (i + 1) numargs"
      using le t(1) 2(1) by (subst addstrings_loop_unfold) simp
    show ?thesis
      using Suc.hyps(1)[OF k 2(2) 2(4)] frame_trans[OF 2(3)] by (simp add: unf)
  qed
qed

lemma addsepstrings_loop_wf:
  fixes L :: "('w::len) state"
  assumes "wf_heap L" "buffer_at L B \<noteq> None" "unat seplen \<le> length (bytes sep)"
  shows "wf_heap (final_state (addsepstrings_loop L B sep seplen i numargs)) \<and>
         frame L (final_state (addsepstrings_loop L B sep seplen i numargs)) B"
  using assms(1,2)
proof (induction k \<equiv> "nat (numargs - i)" arbitrary: L i)
  case 0
  then have "\<not> i < numargs" by simp
  then show ?case using 0
    by (subst addsepstrings_loop_unfold, subst addsepstrings_loop_unfold)
      (simp add: final_state_def frame_refl)
next
  case (Suc k)
  then have lt: "i < numargs" by simp
  from tolstring_wf[OF Suc.prems(1), of i] obtain t and len :: "'w word"
    where t: "tolstring L i = Inr ((t, len), L)" "unat len \<le> length (bytes t)" by blast
  from add_sep_str_outcome[OF Suc.prems(1,2) t(2) assms(3)]
  consider e L1 where "add_sep_str L B t len sep seplen = Inl (e, L1)" "wf_heap L1" "frame L L1 B"
    | L1 where "add_sep_str L B t len sep seplen = Inr ((), L1)" "wf_heap L1" "frame L L1 B"
       "buffer_at L1 B \<noteq> None"
    by blast
  then show ?case
  proof cases
    case 1
    then show ?thesis using lt t(1)
      by (subst addsepstrings_loop_unfold, subst addsepstrings_loop_unfold) (simp add: final_state_def)
  next
    case 2
    have k: "k = nat (numargs - (i + 1))" using Suc.hyps(2) by simp
    have unf: "addsepstrings_loop L B sep seplen i numargs
               = addsepstrings_loop L1 B sep seplen (i + 1) numargs"
      using lt t(1) 2(1) by (subst addsepstrings_loop_unfold) simp
    show ?thesis
      using Suc.hyps(1)[OF k 2(2) 2(4)] frame_trans[OF 2(3)] by (simp add: unf)
  qed
qed

lemma add_bytes_wf:
  fixes L :: "('w::len) state"
  assumes "wf_heap L" "buffer_at L B \<noteq> None" "unat len \<le> length t"
  shows "wf_heap (final_state (add_bytes L B t len)) \<and> frame L (final_state (add_bytes L B t len)) B"
proof -
  from assms(2) obtain r where r: "buffer_at L B = Some r" by blast
  from wf_content[OF assms(1) r] obtain c where c: "content L B = Some c" by blast
  from add_bytes_cases[OF assms(1) r c assms(3)] show ?thesis
    using assms(1) by (auto simp: final_state_def frame_refl)
qed

lemma add_sep_bytes_wf:
  fixes L :: "('w::len) state"
  assumes "wf_heap L" "buffer_at L B \<noteq> None" "unat len \<le> length t" "unat seplen \<le> length sep"
  shows "wf_heap (final_state (add_sep_bytes L B t len sep seplen)) \<and>
         frame L (final_state (add_sep_bytes L B t len sep seplen)) B"
proof -
  from assms(2) obtain r where r: "buffer_at L B = Some r" by blast
  from wf_content[OF assms(1) r] obtain c where c: "content L B = Some c" by blast
  from add_sep_bytes_cases[OF assms(1) r c assms(3,4)] show ?thesis
    by (auto simp: final_state_def)
qed

lemma add_str_wf:
  fixes L :: "('w::len) state"
  assumes "wf_heap L" "buffer_at L B \<noteq> None" "unat len \<le> length (bytes t)"
  shows "wf_heap (final_state (add_str L B t len)) \<and> frame L (final_state (add_str L B t len)) B"
  using add_str_outcome[OF assms] by (auto simp: final_state_def)

lemma add_sep_str_wf:
  fixes L :: "('w::len) state"
  assumes "wf_heap L" "buffer_at L B \<noteq> None" "unat len \<le> length (bytes t)"
    "unat seplen \<le> length (bytes sep)"
  shows "wf_heap (final_state (add_sep_str L B t len sep seplen)) \<and>
         frame L (final_state (add_sep_str L B t len sep seplen)) B"
  using add_sep_str_outcome[OF assms] by (auto simp: final_state_def)

lemma addstrings_wf:
  "wf_heap L \<Longrightarrow> buffer_at L B \<noteq> None \<Longrightarrow>
   wf_heap (final_state (addstrings L B i offs)) \<and> frame L (final_state (addstrings L B i offs)) B"
  by (simp add: addstrings_def Let_def addstrings_loop_wf)

lemma addsepstrings_wf:
  fixes L :: "('w::len) state"
  assumes wf: "wf_heap L" and B: "buffer_at L B \<noteq> None"
  shows "wf_heap (final_state (addsepstrings L B)) \<and> frame L (final_state (addsepstrings L B)) B"
proof -
  from tolstring_wf[OF wf, of 2] obtain sep and seplen :: "'w word"
    where s: "tolstring L 2 = Inr ((sep, seplen), L)" "unat seplen \<le> length (bytes sep)" by blast
  let ?loop = "addsepstrings_loop L B sep seplen 3 (lua_gettop L)"
  note lw = addsepstrings_loop_wf[OF wf B s(2), of 3 "lua_gettop L"]
  show ?thesis
  proof (cases ?loop)
    case (Inl x)
    then have "addsepstrings L B = Inl x" using s(1) by (simp add: addsepstrings_def Let_def)
    then show ?thesis using lw Inl by (simp add: final_state_Inl)
  next
    case (Inr y)
    then obtain L2 where l: "?loop = Inr ((), L2)" by (cases y) auto
    then have 2: "wf_heap L2" "frame L L2 B" using lw by (simp_all add: final_state_def)
    from tolstring_wf[OF 2(1), of "lua_gettop L"] obtain t and len :: "'w word"
      where t: "tolstring L2 (lua_gettop L) = Inr ((t, len), L2)" "unat len \<le> length (bytes t)"
      by blast
    have unf: "addsepstrings L B = add_str L2 B t len"
      using s(1) l t(1)
      by (simp add: addsepstrings_def Let_def add_str_def split: sum.splits prod.splits option.splits)
    from add_str_wf[OF 2(1) frame_buffer[OF 2(2) B] t(2)]
    show ?thesis using frame_trans[OF 2(2)] by (simp add: unf)
  qed
qed

lemma bufflib_add_wf:
  assumes "wf_heap L"
  shows "wf_heap (final_state (bufflib_add L))"
proof (cases "getbuffer L 1")
  case (Inl e)
  then show ?thesis using assms by (simp add: bufflib_add_def final_state_def)
next
  case (Inr B)
  from getbuffer_Inr[OF Inr] have B: "buffer_at L B \<noteq> None" by simp
  from addstrings_wf[OF assms B, of 2 0] have w: "wf_heap (final_state (addstrings L B 2 0))" by simp
  show ?thesis
  proof (cases "addstrings L B 2 0")
    case (Inl x)
    then show ?thesis using w Inr by (simp add: bufflib_add_def final_state_Inl)
  next
    case r: (Inr y)
    then show ?thesis using w Inr
      by (cases y) (simp add: bufflib_add_def final_state_def pushbuffer_def wf_heap_pushvalue)
  qed
qed

lemma bufflib_addsep_wf:
  assumes "wf_heap L"
  shows "wf_heap (final_state (bufflib_addsep L))"
proof (cases "getbuffer L 1")
  case (Inl e)
  then show ?thesis using assms by (simp add: bufflib_addsep_def final_state_def)
next
  case (Inr B)
  from getbuffer_Inr[OF Inr] have B: "buffer_at L B \<noteq> None" by simp
  from addsepstrings_wf[OF assms B] have w: "wf_heap (final_state (addsepstrings L B))" by simp
  show ?thesis
  proof (cases "addsepstrings L B")
    case (Inl x)
    then show ?thesis using w Inr by (simp add: bufflib_addsep_def final_state_Inl)
  next
    case r: (Inr y)
    then show ?thesis using w Inr
      by (cases y) (simp add: bufflib_addsep_def final_state_def pushbuffer_def wf_heap_pushvalue)
  qed
qed


lemma buffer_ok_not_own_initb:
  "buffer_ok L a r \<Longrightarrow> a \<noteq> B \<Longrightarrow> b r \<noteq> Initb B 0"
  by (auto simp: buffer_ok_def)

lemma newbuffer_wf:
  fixes L :: "('w::len) state"
  assumes wf: "wf_heap L"
  shows "wf_heap (snd (newbuffer L)) \<and> fst (newbuffer L) = length (heap L) \<and>
         buffer_at (snd (newbuffer L)) (length (heap L)) \<noteq> None"
proof -
  let ?B = "length (heap L)"
  define r0 :: "'w word Buffer" where
    "r0 = \<lparr>ref = LUA_NOREF, b = Initb ?B 0, sizeB = LUAL_BUFFERSIZE L, n = 0,
           initb = replicate (unat (LUAL_BUFFERSIZE L)) (CHR 0x00)\<rparr>"
  let ?L0 = "L\<lparr>heap := heap L @ [OBuffer r0], stack := stack L @ [VUserdata ?B]\<rparr>"
  have nb: "newbuffer L = (?B, ?L0)"
    by (simp add: newbuffer_def Let_def buffinit_def buffer_at_def obj_at_def set_obj_def r0_def)
  have bufs: "buffer_at ?L0 a = (if a = ?B then Some r0 else buffer_at L a)" for a
    by (auto simp: buffer_at_def obj_at_def nth_append)
  have blks: "obj_at ?L0 k = obj_at L k"
    if "a \<noteq> ?B" "buffer_at L a = Some ra" "b ra = Block k off" for a ra k off
  proof -
    have "k < length (heap L)" using buffer_ok_block_lt[OF wf_buffer_okD[OF wf that(2)] that(3)] by simp
    then show ?thesis by (simp add: obj_at_def nth_append)
  qed
  have ok: "buffer_ok ?L0 ?B r0" by (simp add: buffer_ok_def r0_def)
  have uniq: "b ra \<noteq> b r0" if "a \<noteq> ?B" "buffer_at L a = Some ra" for a ra
    using buffer_ok_not_own_initb[OF wf_buffer_okD[OF wf that(2)] that(1)] by (simp add: r0_def)
  have lb: "LUAL_BUFFERSIZE ?L0 = LUAL_BUFFERSIZE L" by simp
  have "wf_heap ?L0" by (rule wf_heap_updI[OF wf bufs blks ok uniq lb])
  then show ?thesis by (simp add: nb bufs)
qed

lemma wf_heap_buff_unref: "wf_heap (buff_unref L B) = wf_heap L"
  by (rule wf_heap_cong) (simp_all add: buff_unref_def luaL_unref_def split: option.splits)

lemma buffinit_wf:
  assumes wf: "wf_heap L" and B: "buffer_at L B \<noteq> None"
  shows "wf_heap (buffinit L B)"
proof -
  from B obtain r where r: "buffer_at L B = Some r" by blast
  then have Blt: "B < length (heap L)" by (simp add: buffer_at_Some_iff)
  define r' where "r' = r\<lparr>b := Initb B 0, n := 0, sizeB := LUAL_BUFFERSIZE L, ref := LUA_NOREF\<rparr>"
  have bi: "buffinit L B = set_obj L B (OBuffer r')" by (simp add: buffinit_def r r'_def)
  have bufs: "buffer_at (buffinit L B) a = (if a = B then Some r' else buffer_at L a)" for a
    using Blt by (simp add: bi buffer_at_set_obj)
  have blks: "obj_at (buffinit L B) k = obj_at L k"
    if "a \<noteq> B" "buffer_at L a = Some ra" "b ra = Block k off" for a ra k off
  proof -
    have "buffer_at L k = None" using buffer_ok_block_lt[OF wf_buffer_okD[OF wf that(2)] that(3)] by simp
    then have "k \<noteq> B" using r by auto
    then show ?thesis by (simp add: bi obj_at_set_obj)
  qed
  have lb: "LUAL_BUFFERSIZE (buffinit L B) = LUAL_BUFFERSIZE L" by (simp add: bi set_obj_def)
  have ok: "buffer_ok (buffinit L B) B r'"
    using wf_buffer_okD[OF wf r] by (simp add: buffer_ok_def r'_def lb)
  have uniq: "b ra \<noteq> b r'" if "a \<noteq> B" "buffer_at L a = Some ra" for a ra
    using buffer_ok_not_own_initb[OF wf_buffer_okD[OF wf that(2)] that(1)] by (simp add: r'_def)
  show ?thesis by (rule wf_heap_updI[OF wf bufs blks ok uniq lb])
qed

lemma bufflib_reset_wf:
  assumes "wf_heap L"
  shows "wf_heap (final_state (bufflib_reset L))"
proof (cases "getbuffer L 1")
  case (Inl e)
  then show ?thesis using assms by (simp add: bufflib_reset_def final_state_def)
next
  case (Inr B)
  from getbuffer_Inr[OF Inr] have B: "buffer_at L B \<noteq> None" by simp
  then have "buffer_at (buff_unref L B) B \<noteq> None"
    using buff_unref_same[of L B] by (simp add: same_buffers_def)
  then have "wf_heap (buffinit (buff_unref L B) B)"
    using assms by (intro buffinit_wf) (simp_all add: wf_heap_buff_unref)
  then show ?thesis using Inr
    by (simp add: bufflib_reset_def final_state_def pushbuffer_def wf_heap_pushvalue)
qed

lemma bufflib_newbuffer_wf:
  assumes "wf_heap L"
  shows "wf_heap (final_state (bufflib_newbuffer L))"
proof -
  obtain B L0 where nb: "newbuffer L = (B, L0)" by (cases "newbuffer L")
  with newbuffer_wf[OF assms] have 0: "wf_heap L0" "buffer_at L0 B \<noteq> None" by simp_all
  from addstrings_wf[OF 0, of 1 1] have w: "wf_heap (final_state (addstrings L0 B 1 1))" by simp
  show ?thesis
  proof (cases "addstrings L0 B 1 1")
    case (Inl x)
    then show ?thesis using w nb by (simp add: bufflib_newbuffer_def final_state_Inl)
  next
    case (Inr y)
    then show ?thesis using w nb by (cases y) (simp add: bufflib_newbuffer_def final_state_def)
  qed
qed

lemma bufflib_readers_wf:
  assumes "wf_heap L"
  shows "wf_heap (final_state (bufflib_tostring L))" "wf_heap (final_state (bufflib_len L))"
    "wf_heap (final_state (bufflib_equal L))"
  using assms
  by (auto simp: bufflib_tostring_def bufflib_len_def bufflib_equal_def final_state_def
      lua_pushlstring_def wf_heap_push split: sum.splits option.splits)

lemma concat_two_unfold:
  "(case prepbuffsize L2 dest (len1 + len2) of
      Inl x \<Rightarrow> Inl x
    | Inr (p, L3) \<Rightarrow>
        (case memcpy_str L3 p str1 (unat len1) of
           None \<Rightarrow> Inl (Fault, L3)
         | Some L4 \<Rightarrow>
             (case memcpy_str (addsize L4 dest len1) (ptr_add p (unat len1)) str2 (unat len2) of
                None \<Rightarrow> Inl (Fault, addsize L4 dest len1)
              | Some L6 \<Rightarrow> Inr (1::int, addsize L6 dest len2))))
   = (case add_sep_str L2 dest str1 len1 str2 len2 of
        Inl x \<Rightarrow> Inl x
      | Inr (u, L') \<Rightarrow> Inr (1, L'))"
  by (simp add: add_sep_str_def Let_def split: sum.splits prod.splits option.splits)

lemma concat_one_unfold:
  "(case prepbuffsize L1 dest len of
      Inl x \<Rightarrow> Inl x
    | Inr (p, L2) \<Rightarrow>
        (case memcpy_str L2 p str (unat len) of
           None \<Rightarrow> Inl (Fault, L2)
         | Some L3 \<Rightarrow> Inr (pushbuffer (addsize L3 dest len) i)))
   = (case add_str L1 dest str len of
        Inl x \<Rightarrow> Inl x
      | Inr (u, L') \<Rightarrow> Inr (pushbuffer L' i))"
  by (simp add: add_str_def split: sum.splits prod.splits option.splits)

lemma bufflib_concat_two:
  fixes L :: "('w::len) state"
  assumes wf: "wf_heap L" and one: "isbuffer L 1"
  shows "\<exists>str1 str2 L0 (len1 :: 'w word) len2.
           snd (newbuffer L) = L0 \<and> wf_heap L0 \<and>
           tolstring L0 1 = Inr ((str1, len1), L0) \<and> tolstring L0 2 = Inr ((str2, len2), L0) \<and>
           unat len1 \<le> length (bytes str1) \<and> unat len2 \<le> length (bytes str2) \<and>
           bufflib_concat L = (case add_sep_str L0 (length (heap L)) str1 len1 str2 len2 of
                                 Inl x \<Rightarrow> Inl x
                               | Inr (u, L') \<Rightarrow> Inr (1, L'))"
proof -
  obtain B L0 where nb: "newbuffer L = (B, L0)" by (cases "newbuffer L")
  with newbuffer_wf[OF wf] have 0: "wf_heap L0" "B = length (heap L)" by simp_all
  from tolstring_wf[OF 0(1), of 1] obtain str1 and len1 :: "'w word"
    where 1: "tolstring L0 1 = Inr ((str1, len1), L0)" "unat len1 \<le> length (bytes str1)" by blast
  from tolstring_wf[OF 0(1), of 2] obtain str2 and len2 :: "'w word"
    where 2: "tolstring L0 2 = Inr ((str2, len2), L0)" "unat len2 \<le> length (bytes str2)" by blast
  have "bufflib_concat L = (case add_sep_str L0 B str1 len1 str2 len2 of
                                 Inl x \<Rightarrow> Inl x
                               | Inr (u, L') \<Rightarrow> Inr (1, L'))"
    unfolding bufflib_concat_def Let_def
    by (simp add: one nb 1 2 concat_two_unfold del: Let_def)
  then show ?thesis using nb 0 1 2 by simp
qed

lemma bufflib_concat_wf:
  fixes L :: "('w::len) state"
  assumes wf: "wf_heap L"
  shows "wf_heap (final_state (bufflib_concat L))"
proof (cases "isbuffer L 1")
  case True
  from bufflib_concat_two[OF wf True] obtain str1 str2 L0 and len1 len2 :: "'w word" where
    c: "snd (newbuffer L) = L0" "wf_heap L0" "unat len1 \<le> length (bytes str1)" "unat len2 \<le> length (bytes str2)"
      "bufflib_concat L = (case add_sep_str L0 (length (heap L)) str1 len1 str2 len2 of
                                 Inl x \<Rightarrow> Inl x
                               | Inr (u, L') \<Rightarrow> Inr (1, L'))"
    by blast
  have B: "buffer_at L0 (length (heap L)) \<noteq> None" using newbuffer_wf[OF wf] c(1) by simp
  from add_sep_str_wf[OF c(2) B c(3,4)]
  have w: "wf_heap (final_state (add_sep_str L0 (length (heap L)) str1 len1 str2 len2))" by simp
  show ?thesis
  proof (cases "add_sep_str L0 (length (heap L)) str1 len1 str2 len2")
    case (Inl x)
    then show ?thesis using w c(5) by (simp add: final_state_Inl)
  next
    case (Inr y)
    then show ?thesis using w c(5) by (cases y) (simp add: final_state_def)
  qed
next
  case False
  show ?thesis
  proof (cases "getbuffer L 2")
    case (Inl e)
    then show ?thesis using False wf
      by (simp add: bufflib_concat_def Let_def final_state_def)
  next
    case (Inr d)
    from getbuffer_Inr[OF Inr] have B: "buffer_at L d \<noteq> None" by simp
    from tolstring_wf[OF wf, of 1] obtain str and len :: "'w word"
      where t: "tolstring L 1 = Inr ((str, len), L)" "unat len \<le> length (bytes str)" by blast
    have unf: "bufflib_concat L = (case add_str L d str len of
        Inl x \<Rightarrow> Inl x
      | Inr (u, L') \<Rightarrow> Inr (pushbuffer L' 2))"
      unfolding bufflib_concat_def Let_def
      by (simp add: False Inr t concat_one_unfold del: Let_def)
    from add_str_wf[OF wf B t(2)] have w: "wf_heap (final_state (add_str L d str len))" by simp
    show ?thesis
    proof (cases "add_str L d str len")
      case (Inl x)
      then show ?thesis using w unf by (simp add: final_state_Inl)
    next
      case r: (Inr y)
      then show ?thesis using w unf
        by (cases y) (simp add: final_state_def pushbuffer_def wf_heap_pushvalue)
    qed
  qed
qed

lemma wf_heap_le: "wf_heap L \<Longrightarrow> buffer_at L a = Some r \<Longrightarrow> n r \<le> sizeB r"
  using wf_buffer_okD by (auto simp: buffer_ok_def)

lemma strstr_Some_0: "(strstr s p = Some 0) = starts_with p s"
  by (cases s) (auto simp: starts_with_def)

lemma starts_with_neq:
  assumes "starts_with STRINGPREFIX key"
  shows "key \<noteq> ''bufflib''"
  using assms by (auto simp: starts_with_def STRINGPREFIX_def)

lemma index_prologue:
  fixes L :: "('w::len) state"
  assumes st: "stack L = [VUserdata a, VString name]"
    and buf: "buffer_at L a \<noteq> None"
    and mt: "buffer_metatable L = Some mt"
    and f: "field L mt (c_str name) = v"
  shows "bufflib_index L =
     (if v \<noteq> None \<and> v \<noteq> Some VNil
      then Inr (1, L\<lparr>stack := [VUserdata a, VString name, VTable mt, the v]\<rparr>)
      else let L3 = L\<lparr>stack := [VUserdata a, VString name, VTable mt]\<rparr>;
               key = c_str name
           in if \<not> starts_with STRINGPREFIX key then Inr (1, lua_push L3 VNil)
              else
                (let L4 = lua_getglobal L3 ''string''
                 in if \<not> lua_istable L4 (- 1) then Inr (1, lua_push L4 VNil)
                    else
                      (let strkey = drop STRINGPREFIXLEN key
                       in case lua_getfield L4 (- 1) strkey of
                            None \<Rightarrow> Inl (IndexError, L4)
                          | Some L5 \<Rightarrow>
                              (let L6 = lua_remove L5 (- 2)
                               in if \<not> lua_isfunction L6 (- 1)
                                  then Inr (1, lua_push L6 VNil)
                                  else
                                    (case lua_pushcclosure_stringop L6 of
                                       None \<Rightarrow> Inl (Fault, L6)
                                     | Some L7 \<Rightarrow>
                                    (case lua_setfield (lua_pushvalue L7 (- 1)) 3 key of
                                       None \<Rightarrow> Inl (IndexError, lua_pushvalue L7 (- 1))
                                     | Some L8 \<Rightarrow>
                                    (let L9 = lua_getfield_registry L8 ''_LOADED''
                                     in case lua_getfield L9 (- 1) ''bufflib'' of
                                          None \<Rightarrow> Inl (IndexError, L9)
                                        | Some L10 \<Rightarrow>
                                    (case lua_setfield (lua_pushvalue L10 (- 3)) (- 2) key of
                                       None \<Rightarrow> Inl (IndexError, lua_pushvalue L10 (- 3))
                                     | Some L11 \<Rightarrow> Inr (1, lua_pop L11 2)))))))))"
proof -
  from mt obtain m where m: "registry L BUFFERTYPE = Some (VTable mt)" "table_of L mt = Some m"
    by (auto simp: buffer_metatable_def split: option.splits lua_value.splits if_splits)
  have mk: "m (c_str name) = v" using f m by (simp add: field_def)
  have cs: "luaL_checkstring L 2 = Inr (c_str name, L)"
    by (simp add: luaL_checkstring_def index2value_def lua_gettop_def st)
  have ib: "isbuffer L 1"
    using buf by (auto simp: isbuffer_def getbuffer_def index2value_def lua_gettop_def st)
  let ?L1 = "L\<lparr>stack := [VUserdata a, VString name, VTable mt]\<rparr>"
  have L1: "lua_getmetatable L 1 = ?L1"
    by (simp add: lua_getmetatable_def m lua_push_def st)
  have "table_of ?L1 mt = Some m" using m by (simp add: table_of_def obj_at_stack)
  then have om: "obj_at ?L1 mt = Some (OTable m)"
    by (auto simp: table_of_def split: option.splits obj.splits)
  have L2: "lua_getfield ?L1 (- 1) (c_str name)
             = Some (L\<lparr>stack := [VUserdata a, VString name, VTable mt, w]\<rparr>)"
    if "w = (case v of Some x \<Rightarrow> x | None \<Rightarrow> VNil)" for w
    using that
    by (simp add: lua_getfield_def table_at_def index2value_def lua_gettop_def om mk lua_push_def)
  have n2: "lua_isnil (L\<lparr>stack := [VUserdata a, VString name, VTable mt, w]\<rparr>) (- 1) = (w = VNil)"
    for w
    by (simp add: lua_isnil_def index2value_def lua_gettop_def)
  have L3: "lua_pop (L\<lparr>stack := [VUserdata a, VString name, VTable mt, w]\<rparr>) 1 = ?L1" for w
    by (simp add: lua_pop_def)
  have p: "(strstr k STRINGPREFIX = None \<or> strstr k STRINGPREFIX \<noteq> Some 0)
             = (\<not> starts_with STRINGPREFIX k)" for k
    using strstr_Some_0[of k STRINGPREFIX] by auto
  show ?thesis
  proof (cases "v \<noteq> None \<and> v \<noteq> Some VNil")
    case True
    then obtain x where x: "v = Some x" "x \<noteq> VNil" by auto
    have "bufflib_index L = Inr (1, L\<lparr>stack := [VUserdata a, VString name, VTable mt, x]\<rparr>)"
      unfolding bufflib_index_def cs using ib x(2)
      by (simp only: L1 L2[of x, simplified x, simplified] n2 Let_def sum.case prod.case
            option.case if_True if_False not_True_eq_False not_False_eq_True simp_thms)
    then show ?thesis using x by simp
  next
    case False
    then have w: "VNil = (case v of Some x \<Rightarrow> x | None \<Rightarrow> VNil)" by (auto split: option.splits)
    show ?thesis
      unfolding bufflib_index_def cs using ib False
      by (simp only: L1 L2[OF w] n2 L3 p Let_def sum.case prod.case option.case if_True if_False
            not_True_eq_False not_False_eq_True simp_thms)
  qed
qed

lemma index_hit:
  fixes L :: "('w::len) state"
  assumes st: "stack L = [VUserdata a, VString name]"
    and buf: "buffer_at L a \<noteq> None"
    and mt: "buffer_metatable L = Some mt"
    and f: "field L mt (c_str name) = Some v" and v: "v \<noteq> VNil"
  shows "bufflib_index L = Inr (1, L\<lparr>stack := [VUserdata a, VString name, VTable mt, v]\<rparr>)"
  using index_prologue[OF st buf mt f] v by simp

lemma index_nil:
  fixes L :: "('w::len) state"
  assumes st: "stack L = [VUserdata a, VString name]"
    and buf: "buffer_at L a \<noteq> None"
    and mt: "buffer_metatable L = Some mt"
    and miss: "field L mt (c_str name) = None"
    and sok: "table_value_ok L (globals L ''string'')"
    and no: "\<not> starts_with STRINGPREFIX (c_str name) \<or>
             string_function L (drop STRINGPREFIXLEN (c_str name)) = None"
  shows "\<exists>xs. bufflib_index L = Inr (1, L\<lparr>stack := xs @ [VNil]\<rparr>)"
proof (cases "starts_with STRINGPREFIX (c_str name)")
  case False
  then have "bufflib_index L
               = Inr (1, L\<lparr>stack := [VUserdata a, VString name, VTable mt] @ [VNil]\<rparr>)"
    using index_prologue[OF st buf mt miss] by (simp add: Let_def lua_push_def)
  then show ?thesis by blast
next
  case True
  then have nf: "string_function L (drop STRINGPREFIXLEN (c_str name)) = None" using no by simp
  let ?L3 = "L\<lparr>stack := [VUserdata a, VString name, VTable mt]\<rparr>"
  let ?k = "drop STRINGPREFIXLEN (c_str name)"
  show ?thesis
  proof (cases "\<exists>t. globals L ''string'' = Some (VTable t)")
    case False
    then have "\<not> lua_istable (lua_getglobal ?L3 ''string'') (- 1)"
      by (auto simp: lua_istable_def lua_getglobal_def lua_push_def index2value_def lua_gettop_def
            split: option.splits lua_value.splits)
    then have "bufflib_index L
                 = Inr (1, L\<lparr>stack := [VUserdata a, VString name, VTable mt,
                        case globals L ''string'' of Some v \<Rightarrow> v | None \<Rightarrow> VNil] @ [VNil]\<rparr>)"
      using index_prologue[OF st buf mt miss] True
      by (simp add: Let_def lua_push_def lua_getglobal_def)
    then show ?thesis by blast
  next
    case yes: True
    then obtain t where t: "globals L ''string'' = Some (VTable t)" by blast
    with sok obtain sm where sm: "table_of L t = Some sm"
      by (auto simp: table_value_ok_def)
    then have ot: "obj_at L t = Some (OTable sm)"
      by (auto simp: table_of_def split: option.splits obj.splits)
    have nofun: "\<And>f. sm ?k \<noteq> Some (VFunction f)"
      using nf t sm by (auto simp: string_function_def)
    let ?L4 = "L\<lparr>stack := [VUserdata a, VString name, VTable mt, VTable t]\<rparr>"
    let ?w = "case sm ?k of Some v \<Rightarrow> v | None \<Rightarrow> VNil"
    let ?L6 = "L\<lparr>stack := [VUserdata a, VString name, VTable mt, ?w]\<rparr>"
    have L4: "lua_getglobal ?L3 ''string'' = ?L4"
      by (simp add: lua_getglobal_def t lua_push_def)
    have it: "lua_istable ?L4 (- 1)"
      by (simp add: lua_istable_def index2value_def lua_gettop_def)
    have L5: "lua_getfield ?L4 (- 1) ?k
                = Some (L\<lparr>stack := [VUserdata a, VString name, VTable mt, VTable t, ?w]\<rparr>)"
      by (simp add: lua_getfield_def table_at_def index2value_def lua_gettop_def obj_at_stack ot
            lua_push_def)
    have L6: "lua_remove (L\<lparr>stack := [VUserdata a, VString name, VTable mt, VTable t, ?w]\<rparr>) (- 2)
                = ?L6"
      by (simp add: lua_remove_def lua_gettop_def)
    have nfn: "\<not> lua_isfunction ?L6 (- 1)"
      using nofun
      by (auto simp: lua_isfunction_def index2value_def lua_gettop_def
            split: option.splits lua_value.splits)
    have "bufflib_index L = Inr (1, lua_push ?L6 VNil)"
      using index_prologue[OF st buf mt miss] True
      by (simp only: L4 it L5 L6 nfn Let_def option.case if_True if_False
            not_True_eq_False not_False_eq_True simp_thms)
    then have "bufflib_index L
                 = Inr (1, L\<lparr>stack := [VUserdata a, VString name, VTable mt, ?w] @ [VNil]\<rparr>)"
      by (simp add: lua_push_def)
    then show ?thesis by blast
  qed
qed

lemma table_of_Some_iff:
  "table_of L t = Some m \<longleftrightarrow> t < length (heap L) \<and> heap L ! t = OTable m"
  by (auto simp: table_of_def obj_at_def split: obj.splits if_splits)

lemma index_install:
  fixes L :: "('w::len) state"
  assumes st: "stack L = [VUserdata a, VString name]"
    and buf: "buffer_at L a \<noteq> None"
    and mt: "buffer_metatable L = Some mt"
    and miss: "field L mt (c_str name) = None"
    and pre: "starts_with STRINGPREFIX (c_str name)"
    and sf: "string_function L (drop STRINGPREFIXLEN (c_str name)) = Some fn"
    and md: "module_table L = Some lib"
    and m: "table_of L mt = Some m" and bm: "table_of L lib = Some bm"
  shows "bufflib_index L =
           Inr (1, L\<lparr>stack := [VUserdata a, VString name, VTable mt, VFunction (length (heap L))],
                     heap := (heap L @ [OStringop (VFunction fn)])
                       [mt := OTable (m(c_str name \<mapsto> VFunction (length (heap L)))),
                        lib := OTable (bm(c_str name \<mapsto> VFunction (length (heap L))))]\<rparr>)"
proof -
  let ?key = "c_str name"
  let ?k = "drop STRINGPREFIXLEN ?key"
  let ?c = "length (heap L)"
  let ?cl = "VFunction ?c"
  from sf obtain t sm where t: "globals L ''string'' = Some (VTable t)"
    and sm: "table_of L t = Some sm" and smk: "sm ?k = Some (VFunction fn)"
    by (auto simp: string_function_def split: option.splits lua_value.splits)
  from md bm obtain ld lm where ld: "registry L ''_LOADED'' = Some (VTable ld)"
    and lm: "table_of L ld = Some lm" and lmk: "lm ''bufflib'' = Some (VTable lib)"
    by (auto simp: module_table_def split: option.splits lua_value.splits if_splits)
  have ot: "obj_at L t = Some (OTable sm)"
    using sm by (auto simp: table_of_def split: option.splits obj.splits)
  have mtl: "mt < ?c" "heap L ! mt = OTable m" using m by (simp_all add: table_of_Some_iff)
  have ldl: "ld < ?c" "heap L ! ld = OTable lm" using lm by (simp_all add: table_of_Some_iff)
  have libl: "lib < ?c" "heap L ! lib = OTable bm" using bm by (simp_all add: table_of_Some_iff)
  have kb: "?key \<noteq> ''bufflib''" by (rule starts_with_neq[OF pre])
  let ?S3 = "[VUserdata a, VString name, VTable mt]"
  let ?L3 = "L\<lparr>stack := ?S3\<rparr>"
  let ?L4 = "L\<lparr>stack := ?S3 @ [VTable t]\<rparr>"
  have L4: "lua_getglobal ?L3 ''string'' = ?L4"
    by (simp add: lua_getglobal_def t lua_push_def)
  have it: "lua_istable ?L4 (- 1)"
    by (simp add: lua_istable_def index2value_def lua_gettop_def)
  let ?L5 = "L\<lparr>stack := ?S3 @ [VTable t, VFunction fn]\<rparr>"
  have L5: "lua_getfield ?L4 (- 1) ?k = Some ?L5"
    by (simp add: lua_getfield_def table_at_def index2value_def lua_gettop_def obj_at_stack ot
          lua_push_def smk)
  let ?L6 = "L\<lparr>stack := ?S3 @ [VFunction fn]\<rparr>"
  have L6: "lua_remove ?L5 (- 2) = ?L6"
    by (simp add: lua_remove_def lua_gettop_def)
  have isf: "lua_isfunction ?L6 (- 1)"
    by (simp add: lua_isfunction_def index2value_def lua_gettop_def)
  let ?H7 = "heap L @ [OStringop (VFunction fn)]"
  let ?L7 = "L\<lparr>stack := ?S3 @ [?cl], heap := ?H7\<rparr>"
  have L7: "lua_pushcclosure_stringop ?L6 = Some ?L7"
    by (simp add: lua_pushcclosure_stringop_def lua_push_def lua_pop_def)
  let ?L7' = "L\<lparr>stack := ?S3 @ [?cl, ?cl], heap := ?H7\<rparr>"
  have L7': "lua_pushvalue ?L7 (- 1) = ?L7'"
    by (simp add: lua_pushvalue_def lua_push_def index2value_def lua_gettop_def)
  let ?H8 = "?H7[mt := OTable (m(?key \<mapsto> ?cl))]"
  let ?L8 = "L\<lparr>stack := ?S3 @ [?cl], heap := ?H8\<rparr>"
  have o7: "obj_at (L\<lparr>stack := xs, heap := ?H7\<rparr>) mt = Some (OTable m)" for xs
    using mtl by (simp add: obj_at_def nth_append)
  have L8: "lua_setfield ?L7' 3 ?key = Some ?L8"
    by (simp add: lua_setfield_def table_at_def index2value_def lua_gettop_def o7 set_obj_def
          lua_pop_def)
  let ?L9 = "L\<lparr>stack := ?S3 @ [?cl, VTable ld], heap := ?H8\<rparr>"
  have L9: "lua_getfield_registry ?L8 ''_LOADED'' = ?L9"
    by (simp add: lua_getfield_registry_def ld lua_push_def)
  obtain lm8 where o9: "\<And>xs. obj_at (L\<lparr>stack := xs, heap := ?H8\<rparr>) ld = Some (OTable lm8)"
    and lm8: "lm8 ''bufflib'' = Some (VTable lib)"
  proof (cases "ld = mt")
    case True
    then have "obj_at (L\<lparr>stack := xs, heap := ?H8\<rparr>) ld = Some (OTable (m(?key \<mapsto> ?cl)))" for xs
      using mtl by (simp add: obj_at_def)
    moreover have "(m(?key \<mapsto> ?cl)) ''bufflib'' = Some (VTable lib)"
      using True mtl ldl lmk kb by auto
    ultimately show ?thesis by (rule that)
  next
    case False
    then have "obj_at (L\<lparr>stack := xs, heap := ?H8\<rparr>) ld = Some (OTable lm)" for xs
      using ldl by (simp add: obj_at_def nth_append)
    then show ?thesis using lmk by (rule that)
  qed
  let ?L10 = "L\<lparr>stack := ?S3 @ [?cl, VTable ld, VTable lib], heap := ?H8\<rparr>"
  have L10: "lua_getfield ?L9 (- 1) ''bufflib'' = Some ?L10"
    by (simp add: lua_getfield_def table_at_def index2value_def lua_gettop_def o9 lm8 lua_push_def)
  let ?L10' = "L\<lparr>stack := ?S3 @ [?cl, VTable ld, VTable lib, ?cl], heap := ?H8\<rparr>"
  have L10': "lua_pushvalue ?L10 (- 3) = ?L10'"
    by (simp add: lua_pushvalue_def lua_push_def index2value_def lua_gettop_def)
  let ?H11 = "?H8[lib := OTable (bm(?key \<mapsto> ?cl))]"
  let ?L11 = "L\<lparr>stack := ?S3 @ [?cl, VTable ld, VTable lib], heap := ?H11\<rparr>"
  obtain bm8 where o10: "\<And>xs. obj_at (L\<lparr>stack := xs, heap := ?H8\<rparr>) lib = Some (OTable bm8)"
    and bm8: "bm8(?key \<mapsto> ?cl) = bm(?key \<mapsto> ?cl)"
  proof (cases "lib = mt")
    case True
    then have "obj_at (L\<lparr>stack := xs, heap := ?H8\<rparr>) lib = Some (OTable (m(?key \<mapsto> ?cl)))" for xs
      using mtl by (simp add: obj_at_def)
    moreover have "(m(?key \<mapsto> ?cl))(?key \<mapsto> ?cl) = bm(?key \<mapsto> ?cl)"
      using True mtl libl by auto
    ultimately show ?thesis by (rule that)
  next
    case False
    then have "obj_at (L\<lparr>stack := xs, heap := ?H8\<rparr>) lib = Some (OTable bm)" for xs
      using libl by (simp add: obj_at_def nth_append)
    then show ?thesis by (rule that) simp
  qed
  have L11: "lua_setfield ?L10' (- 2) ?key = Some ?L11"
    using bm8
    by (simp add: lua_setfield_def table_at_def index2value_def lua_gettop_def o10 set_obj_def
          lua_pop_def)
  have L12: "lua_pop ?L11 2 = L\<lparr>stack := ?S3 @ [?cl], heap := ?H11\<rparr>"
    by (simp add: lua_pop_def)
  have "bufflib_index L = Inr (1, L\<lparr>stack := ?S3 @ [?cl], heap := ?H11\<rparr>)"
    using index_prologue[OF st buf mt miss] pre
    by (simp only: L4 it L5 L6 isf L7 L7' L8 L9 L10 L10' L11 L12 Let_def option.case if_True if_False
          not_True_eq_False not_False_eq_True simp_thms)
  then show ?thesis by simp
qed

section \<open>The properties\<close>

subsection \<open>Failure of \<open>prepbuffsize\<close>\<close>

text \<open>
  C3. When \<open>prepbuffsize\<close> fails with "buffer too large", the state it leaves is the
  state it was called in: the error is raised before the new block is made and before
  any field of the Buffer is written, so \<open>b\<close>, \<open>size\<close> and \<open>n\<close> (and \<open>ref\<close>, the stack
  and the registry) are as they were.
\<close>

theorem prepbuffsize_too_large_unchanged:
  "prepbuffsize L B sz = Inl (TooLarge, L') \<Longrightarrow> L' = L \<and> buffer_at L' B = buffer_at L B"
  by (auto simp: prepbuffsize_def Let_def split: option.splits if_splits prod.splits)

theorem prepbuffsize_too_large_unchanged_witness:
  "prepbuffsize ex_ab 0 (- 1) = Inl (TooLarge, ex_ab) \<and> buffer_at ex_ab 0 = Some ex_buffer"
proof -
  have h: "prepbuffsize ex_ab 0 (- 1) = Inl (TooLarge, ex_ab)"
    by (simp add: prepbuffsize_def buffer_at_ex_ab ex_buffer_def Let_def)
  show ?thesis
    using prepbuffsize_too_large_unchanged [OF h] h by (simp add: buffer_at_ex_ab)
qed

subsection \<open>Appending\<close>

text \<open>
  C1. \<open>addstrings\<close> copies each string form through the pointer \<open>tolstring\<close> returned,
  after the string was popped and after \<open>prepbuffsize\<close> made room. In the call
  \<open>A:add(C)\<close> with a Buffer \<open>A\<close> that holds \<open>ab\<close> and a Buffer \<open>C\<close> that holds \<open>abx\<close>, the string
  form of \<open>C\<close> is a new string, and making room for it allocates a new store. On a host
  whose collector runs at that allocation the string is freed before \<open>memcpy\<close> reads it:
  the call ends in \<open>Fault\<close>. On the same host with a collector that does not run the call
  returns and \<open>A\<close> holds \<open>ababx\<close>. With the Lua string \<open>abx\<close> in the place of \<open>C\<close> the pointer is
  into the argument, and \<open>A\<close> holds \<open>ababx\<close> also where the collector runs.
\<close>

theorem add_reads_freed_string:
  "content ex_gc_add 0 = Some ''ab'' \<and> content ex_gc_add 1 = Some ''abx'' \<and>
   raised (bufflib_add ex_gc_add) = Some Fault \<and>
   raised (bufflib_add (ex_gc_add\<lparr>gc_runs := False\<rparr>)) = None \<and>
   content (final_state (bufflib_add (ex_gc_add\<lparr>gc_runs := False\<rparr>))) 0 = Some ''ababx'' \<and>
   raised (bufflib_add (ex_gc_add\<lparr>stack := [VUserdata 0, VString ''abx'']\<rparr>)) = None \<and>
   content (final_state (bufflib_add (ex_gc_add\<lparr>stack := [VUserdata 0, VString ''abx'']\<rparr>))) 0
     = Some ''ababx''"
  by code_simp

text \<open>
  Where the pointers stay good (every value is a Lua string, or the collector of the
  host does not run) the contents are the concatenation. \<open>addstrings\<close> is the loop
  behind \<open>add\<close> (first value at index 2) and \<open>new\<close> (first value at index 1, the new Buffer
  above the values). In a state that satisfies the invariant, with Lua strings of
  lengths that fit \<open>size_t\<close>, it either raises "buffer too large" or returns, and when it
  returns \<open>bufflib_tostring\<close> gives the previous contents followed by the string forms of
  the values in the order of the call, whatever number of times the store was replaced
  on the way. A value that is the Buffer itself adds the contents the Buffer has when
  its turn comes; with no such value the result is the plain concatenation. The call
  returns whenever the resulting contents are at most half the range of \<open>size_t\<close> long.
\<close>

theorem addstrings_tostring:
  fixes L :: "('w::len) state"
  assumes wf: "wf_heap L" and c: "content L B = Some acc"
    and first: "1 \<le> firstarg" and offs: "0 \<le> offs"
    and vs: "vs = args L firstarg (lua_gettop L - offs)"
    and fit: "strings_fit L vs" and stay: "strings_stay L vs"
    and res: "res = addstrings L B firstarg offs"
  shows "(raised res = None \<or> raised res = Some TooLarge) \<and>
         (raised res = None \<longrightarrow>
            returned (bufflib_tostring ((final_state res)\<lparr>stack := [VUserdata B]\<rparr>))
              = Some (VString (appended L B acc vs))) \<and>
         (VUserdata B \<notin> set vs \<longrightarrow> appended L B acc vs = acc @ concat (map (text_of L) vs)) \<and>
         (length (appended L B acc vs) \<le> 2 ^ (LENGTH('w) - 1) \<longrightarrow> raised res = None)"
proof -
  from content_buffer[OF c] obtain r where r: "buffer_at L B = Some r" by blast
  have top: "lua_gettop L - offs \<le> int (length (stack L))" using offs by (simp add: lua_gettop_def)
  from addstrings_loop_correct[OF wf r c first top fit[unfolded vs] stay[unfolded vs]]
  consider L' where "res = Inr ((), L')" "content L' B = Some (appended L B acc vs)"
    | L' where "res = Inl (TooLarge, L')" "2 ^ (LENGTH('w) - 1) < length (appended L B acc vs)"
    unfolding res addstrings_def Let_def vs by blast
  then show ?thesis
  proof cases
    case 1
    then show ?thesis
      by (simp add: raised_def final_state_def tostring_returned appended_no_self)
  next
    case 2
    then show ?thesis
      by (simp add: raised_def appended_no_self)
  qed
qed

theorem addstrings_tostring_witness:
  "wf_heap ex_add \<and> content ex_add 0 = Some ''ab'' \<and>
   strings_fit ex_add (args ex_add 2 (lua_gettop ex_add - 0)) \<and>
   strings_stay ex_add (args ex_add 2 (lua_gettop ex_add - 0)) \<and>
   raised (addstrings ex_add 0 2 0) = None \<and>
   returned (bufflib_tostring ((final_state (addstrings ex_add 0 2 0))\<lparr>stack := [VUserdata 0]\<rparr>))
     = Some (VString ''abcdeabcdetrue'')"
proof -
  have wf: "wf_heap ex_add" by code_simp
  have c: "content ex_add 0 = Some ''ab''" by code_simp
  have fit: "strings_fit ex_add (args ex_add 2 (lua_gettop ex_add - 0))"
    by (simp add: strings_fit_def args_def lua_gettop_def ex_add_def ex_ab_def ex_host_def text_of_def
        display_def buffer_at_def obj_at_def content_def ex_buffer_def read_bytes_def region_def offset_def)
  have stay: "strings_stay ex_add (args ex_add 2 (lua_gettop ex_add - 0))" by code_simp
  have r: "raised (addstrings ex_add 0 2 0) = None" by code_simp
  have a: "appended ex_add 0 ''ab'' (args ex_add 2 (lua_gettop ex_add - 0)) = ''abcdeabcdetrue''"
    by code_simp
  from addstrings_tostring [OF wf c _ _ refl fit stay refl] r a wf c fit stay
  show ?thesis by simp
qed

subsection \<open>Appending with a separator\<close>

text \<open>
  C6. \<open>addsepstrings\<close> copies the separator and each string form through the pointers
  \<open>tolstring\<close> returned, after the strings were popped and after \<open>prepbuffsize\<close> made room.
  In the call \<open>A:addsep(",", C, "d")\<close> with a Buffer \<open>A\<close> that holds \<open>ab\<close> and a Buffer \<open>C\<close>
  that holds \<open>abx\<close>, the string form of \<open>C\<close> is a new string, and making room for it and
  the separator allocates a new store. On a host whose collector runs at that
  allocation the string is freed before \<open>memcpy\<close> reads it: the call ends in \<open>Fault\<close>. On
  the same host with a collector that does not run the call returns and \<open>A\<close> holds
  \<open>ababx,d\<close>. With the Lua string \<open>abx\<close> in the place of \<open>C\<close> the pointers are into the
  arguments, and \<open>A\<close> holds \<open>ababx,d\<close> also where the collector runs.
\<close>

theorem addsep_reads_freed_string:
  "content ex_gc_addsep 0 = Some ''ab'' \<and> content ex_gc_addsep 1 = Some ''abx'' \<and>
   raised (bufflib_addsep ex_gc_addsep) = Some Fault \<and>
   raised (bufflib_addsep (ex_gc_addsep\<lparr>gc_runs := False\<rparr>)) = None \<and>
   content (final_state (bufflib_addsep (ex_gc_addsep\<lparr>gc_runs := False\<rparr>))) 0
     = Some ''ababx,d'' \<and>
   raised (bufflib_addsep
      (ex_gc_addsep\<lparr>stack := [VUserdata 0, VString '','', VString ''abx'', VString ''d'']\<rparr>))
     = None \<and>
   content (final_state (bufflib_addsep
      (ex_gc_addsep\<lparr>stack := [VUserdata 0, VString '','', VString ''abx'', VString ''d'']\<rparr>))) 0
     = Some ''ababx,d''"
  by code_simp

text \<open>
  Where the pointers stay good (the separator and every value are Lua strings, or the
  collector of the host does not run) the claim holds. \<open>addsepstrings\<close> with a separator
  at index 2 and \<open>N \<ge> 1\<close> values from index 3 on, in a state that satisfies the
  invariant, with Lua strings of lengths that fit \<open>size_t\<close>: when it returns,
  \<open>bufflib_tostring\<close> gives the previous contents followed by the first value, then for
  each further value the separator and the value, and no separator after the last one;
  for one value no separator is written at all. The separator is converted once, before
  the loop. A value that is the Buffer itself adds the contents the Buffer has when its
  turn comes. The call returns whenever the resulting contents are at most half the
  range of \<open>size_t\<close> long; otherwise it may raise "buffer too large", or overrun the store
  where the sum of the lengths of a value and the separator wraps around (\<open>Fault\<close>).
\<close>

theorem addsepstrings_tostring:
  fixes L :: "('w::len) state"
  assumes wf: "wf_heap L" and c: "content L B = Some acc"
    and top: "3 \<le> lua_gettop L"
    and sep: "sep = text_of L (stack L ! 1)"
    and vs: "vs = args L 3 (lua_gettop L)"
    and fit: "strings_fit L (args L 2 (lua_gettop L))"
    and stay: "strings_stay L (args L 2 (lua_gettop L))"
    and res: "res = addsepstrings L B"
  shows "(raised res = None \<or> raised res = Some TooLarge \<or> raised res = Some Fault) \<and>
         (raised res = None \<longrightarrow>
            returned (bufflib_tostring ((final_state res)\<lparr>stack := [VUserdata B]\<rparr>))
              = Some (VString (appended_sep L B sep acc vs))) \<and>
         (VUserdata B \<notin> set vs \<longrightarrow>
            appended_sep L B sep acc vs
              = acc @ text_of L (hd vs) @ concat (map (\<lambda>x. sep @ text_of L x) (tl vs))) \<and>
         (length vs = 1 \<longrightarrow>
            appended_sep L B sep acc vs
              = acc @ (if hd vs = VUserdata B then acc else text_of L (hd vs))) \<and>
         (length (appended_sep L B sep acc vs) \<le> 2 ^ (LENGTH('w) - 1) \<longrightarrow> raised res = None)"
proof -
  from content_buffer[OF c] obtain r where r: "buffer_at L B = Some r" by blast
  have na: "lua_gettop L \<le> int (length (stack L))" by (simp add: lua_gettop_def)
  have sn: "vs = args L 3 (lua_gettop L - 1) @ [stack L ! nat (lua_gettop L - 1)]"
    unfolding vs using args_snoc[of 3 "lua_gettop L" L] top na by simp
  then have ne: "vs \<noteq> []" by simp
  have bl: "butlast vs = args L 3 (lua_gettop L - 1)" "last vs = stack L ! nat (lua_gettop L - 1)"
    using sn by simp_all
  have fin: "appended_sep L B sep acc vs
     = appended L B (appended_seps L B sep acc (args L 3 (lua_gettop L - 1)))
                      [stack L ! nat (lua_gettop L - 1)]"
    using appended_sep_split[OF ne, of L B sep acc] by (simp only: bl)
  have ns: "VUserdata B \<notin> set vs \<longrightarrow>
            appended_sep L B sep acc vs
              = acc @ text_of L (hd vs) @ concat (map (\<lambda>x. sep @ text_of L x) (tl vs))"
    using ne appended_sep_no_self[of B "hd vs" "tl vs" L sep acc] by simp
  have one: "length vs = 1 \<longrightarrow>
            appended_sep L B sep acc vs
              = acc @ (if hd vs = VUserdata B then acc else text_of L (hd vs))"
    by (cases vs) auto
  have top2: "2 \<le> lua_gettop L" using top by simp
  from addsepstrings_correct[OF wf r c top2 fit stay sep fin]
  consider L' where "res = Inr ((), L')" "content L' B = Some (appended_sep L B sep acc vs)"
    | e L' where "res = Inl (e, L')" "e = TooLarge \<or> e = Fault"
       "2 ^ (LENGTH('w) - 1) < length (appended_sep L B sep acc vs)"
    unfolding res by blast
  then show ?thesis
  proof cases
    case 1
    then show ?thesis using ns one
      by (simp add: raised_def final_state_def tostring_returned)
  next
    case 2
    then show ?thesis using ns one
      by (auto simp: raised_def)
  qed
qed

theorem addsepstrings_tostring_witness:
  "wf_heap ex_addsep \<and> content ex_addsep 0 = Some [] \<and> 3 \<le> lua_gettop ex_addsep \<and>
   strings_fit ex_addsep (args ex_addsep 2 (lua_gettop ex_addsep)) \<and>
   strings_stay ex_addsep (args ex_addsep 2 (lua_gettop ex_addsep)) \<and>
   raised (addsepstrings ex_addsep 0) = None \<and>
   returned (bufflib_tostring ((final_state (addsepstrings ex_addsep 0))\<lparr>stack := [VUserdata 0]\<rparr>))
     = Some (VString ''a,b,c'')"
proof -
  have wf: "wf_heap ex_addsep" by code_simp
  have c: "content ex_addsep 0 = Some []" by code_simp
  have top: "3 \<le> lua_gettop ex_addsep" by code_simp
  have fit: "strings_fit ex_addsep (args ex_addsep 2 (lua_gettop ex_addsep))"
    by (simp add: strings_fit_def args_def lua_gettop_def ex_addsep_def ex_empty_def ex_host_def
        text_of_def display_def)
  have stay: "strings_stay ex_addsep (args ex_addsep 2 (lua_gettop ex_addsep))" by code_simp
  have r: "raised (addsepstrings ex_addsep 0) = None" by code_simp
  have a: "appended_sep ex_addsep 0 (text_of ex_addsep (stack ex_addsep ! 1)) []
             (args ex_addsep 3 (lua_gettop ex_addsep)) = ''a,b,c''"
    by code_simp
  from addsepstrings_tostring [OF wf c top refl refl fit stay refl] r a wf c top fit stay
  show ?thesis by simp
qed

subsection \<open>\<open>addsep\<close> without values\<close>

text \<open>
  C5, as the claim has it, on the call \<open>addsep(buffer, ",")\<close> with a Buffer that holds
  \<open>ab\<close>: no error is raised, the Buffer is returned, and it holds \<open>ab,\<close> afterwards.
\<close>

theorem addsep_no_values_counterexample:
  "raised (bufflib_addsep ex_addsep0) = None \<and>
   returned (bufflib_addsep ex_addsep0) = Some (VUserdata 0) \<and>
   content ex_addsep0 0 = Some ''ab'' \<and>
   content (final_state (bufflib_addsep ex_addsep0)) 0 = Some ''ab,''"
  by code_simp

text \<open>
  C5. \<open>addsep\<close> has no arity check. A call with a Buffer and a separator string and no
  values raises no argument error: it returns, or it raises "buffer too large".
\<close>

theorem addsep_no_values_no_arity_error:
  fixes L :: "('w::len) state"
  assumes wf: "wf_heap L" and st: "stack L = [VUserdata B, VString sep]"
    and B: "buffer_at L B \<noteq> None"
  shows "raised (bufflib_addsep L) = None \<or> raised (bufflib_addsep L) = Some TooLarge"
proof -
  from B obtain r where r: "buffer_at L B = Some r" by blast
  from wf_content[OF wf r] obtain c where c: "content L B = Some c" by blast
  have g: "getbuffer L 1 = Inr B"
    using r by (simp add: getbuffer_def index2value_def lua_gettop_def st)
  have top: "lua_gettop L = 2" by (simp add: lua_gettop_def st)
  define len :: "'w word" where "len = word_of_nat (length sep)"
  have ulen: "unat len \<le> length sep" by (simp add: len_def unat_of_nat_len)
  have t2: "tolstring L 2 = Inr ((CStr sep None, len), L)"
    by (simp add: tolstring_eq index2value_def lua_gettop_def st display_def pointer_to_def len_def)
  have lp: "addsepstrings_loop L B (CStr sep None) len 3 2 = Inr ((), L)"
    by (subst addsepstrings_loop_unfold) simp
  have "addsepstrings L B = add_str L B (CStr sep None) len"
    by (simp add: addsepstrings_def Let_def top t2 lp add_str_def
        split: sum.splits prod.splits option.splits)
  then have unf: "addsepstrings L B = add_bytes L B sep len"
    by (simp add: add_str_valid)
  from add_bytes_cases[OF wf r c ulen]
  consider "add_bytes L B sep len = Inl (TooLarge, L)"
    | L' where "add_bytes L B sep len = Inr ((), L')"
    by blast
  then show ?thesis
  proof cases
    case 1
    then show ?thesis by (simp add: bufflib_addsep_def g unf raised_def)
  next
    case 2
    then show ?thesis by (simp add: bufflib_addsep_def g unf raised_def pushbuffer_def)
  qed
qed

theorem addsep_no_values_no_arity_error_witness:
  "wf_heap ex_addsep0 \<and> stack ex_addsep0 = [VUserdata 0, VString '',''] \<and>
   buffer_at ex_addsep0 0 \<noteq> None \<and>
   (raised (bufflib_addsep ex_addsep0) = None \<or> raised (bufflib_addsep ex_addsep0) = Some TooLarge)"
proof -
  have wf: "wf_heap ex_addsep0" by code_simp
  have st: "stack ex_addsep0 = [VUserdata 0, VString '','']" by code_simp
  have B: "buffer_at ex_addsep0 0 \<noteq> None" by code_simp
  from addsep_no_values_no_arity_error [OF wf st B] wf st B show ?thesis by simp
qed

subsection \<open>The value the mutating functions return\<close>

text \<open>
  C10. Whenever \<open>add\<close>, \<open>addsep\<close> or \<open>reset\<close> returns, it returns one value, and that
  value is its first argument: the reference to the Buffer it was called on, which is
  pushed again by \<open>pushbuffer\<close>. The object at that address is a Buffer before and after
  the call, and the call makes no new Buffer: the same addresses hold Buffers as before.
\<close>

theorem mutators_return_their_buffer:
  assumes f: "f = bufflib_add \<or> f = bufflib_addsep \<or> f = bufflib_reset"
    and ret: "raised (f L) = None"
  shows "nresults (f L) = Some 1 \<and> returned (f L) = index2value L 1 \<and>
         (\<exists>B. index2value L 1 = Some (VUserdata B) \<and> buffer_at L B \<noteq> None \<and>
               buffer_at (final_state (f L)) B \<noteq> None) \<and>
         (\<forall>a. (buffer_at (final_state (f L)) a = None) = (buffer_at L a = None))"
proof -
  from raised_None[OF ret] obtain k L' where ret: "f L = Inr (k, L')" by blast
  from f ret obtain B where g: "getbuffer L 1 = Inr B"
    by (cases "getbuffer L 1") (auto simp: bufflib_add_def bufflib_addsep_def bufflib_reset_def)
  note gb = getbuffer_Inr[OF g]
  have "\<exists>L1. same_buffers L L1 \<and> (k, L') = pushbuffer L1 1"
    using f
  proof (elim disjE)
    assume "f = bufflib_add"
    then show ?thesis using ret g
      by (auto simp: bufflib_add_def split: sum.splits intro: addstrings_same)
  next
    assume "f = bufflib_addsep"
    then show ?thesis using ret g
      by (auto simp: bufflib_addsep_def split: sum.splits intro: addsepstrings_same)
  next
    assume "f = bufflib_reset"
    moreover have "buffer_at (buff_unref L B) B \<noteq> None"
      using gb buff_unref_same[of L B] by (simp add: same_buffers_def)
    then have "same_buffers L (buffinit (buff_unref L B) B)"
      by (rule same_buffers_trans[OF buff_unref_same buffinit_same])
    ultimately show ?thesis using ret g
      by (auto simp: bufflib_reset_def)
  qed
  then obtain L1 where s: "same_buffers L L1" and p: "(k, L') = pushbuffer L1 1" by blast
  have k: "k = 1" and L': "L' = lua_pushvalue L1 1" using p by (simp_all add: pushbuffer_def)
  have r: "returned (f L) = index2value L 1"
    using pushbuffer_returned[of L1 1] gb same_buffers_index[OF s, of 1] by (simp add: ret p)
  have b: "\<forall>a. (buffer_at L' a = None) = (buffer_at L a = None)"
    unfolding L' by (rule same_buffers_push[OF s])
  show ?thesis using k r b gb by (auto simp: ret nresults_def final_state_def)
qed

theorem mutators_return_their_buffer_witness:
  "raised (bufflib_add ex_add) = None \<and> returned (bufflib_add ex_add) = Some (VUserdata 0) \<and>
   raised (bufflib_addsep ex_addsep) = None \<and> returned (bufflib_addsep ex_addsep) = Some (VUserdata 0) \<and>
   raised (bufflib_reset ex_add) = None \<and> returned (bufflib_reset ex_add) = Some (VUserdata 0) \<and>
   nresults (bufflib_reset ex_add) = Some 1"
proof -
  have 1: "raised (bufflib_add ex_add) = None" by code_simp
  have 2: "raised (bufflib_addsep ex_addsep) = None" by code_simp
  have 3: "raised (bufflib_reset ex_add) = None" by code_simp
  have i: "index2value ex_add 1 = Some (VUserdata 0)" "index2value ex_addsep 1 = Some (VUserdata 0)"
    by code_simp+
  from mutators_return_their_buffer [of bufflib_add, OF _ 1]
    mutators_return_their_buffer [of bufflib_addsep, OF _ 2]
    mutators_return_their_buffer [of bufflib_reset, OF _ 3] 1 2 3 i
  show ?thesis by simp
qed

subsection \<open>Capacity\<close>

text \<open>
  C2. \<open>prepbuffsize\<close> on a Buffer with capacity \<open>size\<close> and used length \<open>n\<close>, asked for \<open>sz\<close>
  bytes, in the arithmetic of \<open>size_t\<close>. If \<open>size - n \<ge> sz\<close> it returns the pointer
  \<open>b + n\<close> and leaves the state as it is: no block is made, and \<open>b\<close> and \<open>size\<close> are
  unchanged. Otherwise, whenever it returns, the Buffer's store is a new block whose
  capacity is \<open>size * 2\<close>, or \<open>n + sz\<close> when \<open>size * 2 - n < sz\<close>; the used length is
  unchanged. In a state that satisfies the invariant it does return whenever \<open>n + sz\<close>
  is at most half the range of \<open>size_t\<close>.
\<close>

theorem prepbuffsize_capacity:
  fixes L :: "('w::len) state"
  assumes B: "buffer_at L B = Some r" and res: "res = prepbuffsize L B sz"
  shows "(sz \<le> sizeB r - n r \<longrightarrow> res = Inr (ptr_add (b r) (unat (n r)), L)) \<and>
         (sizeB r - n r < sz \<longrightarrow> raised res = None \<longrightarrow>
            (\<exists>r'. buffer_at (final_state res) B = Some r' \<and>
                  sizeB r' = (if sizeB r * 2 - n r < sz then n r + sz else sizeB r * 2) \<and>
                  b r' = Block (length (heap L)) 0 \<and> n r' = n r)) \<and>
         (wf_heap L \<longrightarrow> unat (n r) + unat sz \<le> 2 ^ (LENGTH('w) - 1) \<longrightarrow> raised res = None)"
proof (intro conjI impI)
  assume "sz \<le> sizeB r - n r"
  then have "\<not> sizeB r - n r < sz" by (simp add: not_less)
  then show "res = Inr (ptr_add (b r) (unat (n r)), L)"
    unfolding res by (rule prepbuffsize_nogrow[OF B])
next
  assume lt: "sizeB r - n r < sz" and ret: "raised res = None"
  have Blt: "B < length (heap L)" using B by (simp add: buffer_at_Some_iff)
  define newsize where "newsize = (if sizeB r * 2 - n r < sz then n r + sz else sizeB r * 2)"
  let ?L1 = "snd (lua_newuserdata L (unat newsize))"
  let ?nb = "fst (lua_newuserdata L (unat newsize))"
  from raised_None[OF ret] obtain p L' where r1: "prepbuffsize L B sz = Inr (p, L')"
    unfolding res by blast
  from r1 B lt obtain old L2 rf L3 where
      m: "memcpy ?L1 ?nb old (unat (n r)) = Some L2"
      and rf: "luaL_ref (buff_unref L2 B) = Some (rf, L3)"
      and L': "L' = set_obj L3 B (OBuffer (r\<lparr>ref := rf, b := ?nb, sizeB := newsize\<rparr>))"
    by (auto simp: prepbuffsize_def Let_def newsize_def split: if_splits option.splits prod.splits)
  have nb: "fst (lua_newuserdata L k) = Block (length (heap L)) 0" for k
    by (simp add: lua_newuserdata_def Let_def)
  have sb: "same_buffers L L'" by (rule prepbuffsize_same[OF r1])
  have l1: "length (heap ?L1) = Suc (length (heap L))" by (simp add: lua_newuserdata_def Let_def)
  have "buffer_at L' B \<noteq> None" using sb B by (simp add: same_buffers_def)
  then have "B < length (heap L3)"
    by (auto simp: L' buffer_at_set_obj split: if_splits) (simp add: buffer_at_Some_iff)
  then have "buffer_at L' B = Some (r\<lparr>ref := rf, b := ?nb, sizeB := newsize\<rparr>)"
    by (simp add: L' buffer_at_set_obj)
  then show "\<exists>r'. buffer_at (final_state res) B = Some r' \<and>
                  sizeB r' = (if sizeB r * 2 - n r < sz then n r + sz else sizeB r * 2) \<and>
                  b r' = Block (length (heap L)) 0 \<and> n r' = n r"
    by (simp add: res r1 final_state_def nb newsize_def)
next
  assume wf: "wf_heap L" and half: "unat (n r) + unat sz \<le> 2 ^ (LENGTH('w) - 1)"
  from prepbuffsize_cases[OF wf B, of sz] half
  show "raised res = None" unfolding res by (auto simp: raised_def)
qed

theorem prepbuffsize_capacity_witness:
  "buffer_at ex_ab 0 = Some ex_buffer \<and> wf_heap ex_ab \<and>
   prepbuffsize ex_ab 0 1 = Inr (Initb 0 2, ex_ab) \<and>
   raised (prepbuffsize ex_ab 0 3) = None \<and>
   map_option sizeB (buffer_at (final_state (prepbuffsize ex_ab 0 3)) 0) = Some 8 \<and>
   raised (prepbuffsize ex_ab 0 100) = None \<and>
   map_option sizeB (buffer_at (final_state (prepbuffsize ex_ab 0 100)) 0) = Some 102"
proof -
  have wf: "wf_heap ex_ab" by code_simp
  note t = prepbuffsize_capacity [OF buffer_at_ex_ab refl]
  have 1: "prepbuffsize ex_ab 0 1 = Inr (Initb 0 2, ex_ab)"
    using t [of 1] by (simp add: ex_buffer_def ptr_add_def)
  have 3: "raised (prepbuffsize ex_ab 0 3) = None"
    using t [of 3] wf by (simp add: ex_buffer_def)
  have 100: "raised (prepbuffsize ex_ab 0 100) = None"
    using t [of 100] wf by (simp add: ex_buffer_def)
  have s3: "map_option sizeB (buffer_at (final_state (prepbuffsize ex_ab 0 3)) 0) = Some 8"
    using t [of 3] 3 by (auto simp: ex_buffer_def)
  have s100: "map_option sizeB (buffer_at (final_state (prepbuffsize ex_ab 0 100)) 0) = Some 102"
    using t [of 100] 100 by (auto simp: ex_buffer_def)
  show ?thesis using buffer_at_ex_ab wf 1 3 100 s3 s100 by simp
qed

subsection \<open>Equality\<close>

text \<open>
  C7. \<open>bufflib_equal\<close> on two Buffers, in a state that satisfies the invariant: it returns
  the boolean that says whether the strings \<open>bufflib_tostring\<close> returns for the two are
  the same string. It is true of a Buffer and itself, and it gives the same answer with
  the arguments exchanged.
\<close>

theorem equal_agrees_with_tostring:
  assumes wf: "wf_heap L" and A: "buffer_at L A \<noteq> None" and C: "buffer_at L C \<noteq> None"
  shows "\<exists>sa sc.
           returned (bufflib_tostring (L\<lparr>stack := [VUserdata A]\<rparr>)) = Some (VString sa) \<and>
           returned (bufflib_tostring (L\<lparr>stack := [VUserdata C]\<rparr>)) = Some (VString sc) \<and>
           returned (bufflib_equal (L\<lparr>stack := [VUserdata A, VUserdata C]\<rparr>))
             = Some (VBoolean (sa = sc)) \<and>
           returned (bufflib_equal (L\<lparr>stack := [VUserdata A, VUserdata A]\<rparr>))
             = Some (VBoolean True) \<and>
           returned (bufflib_equal (L\<lparr>stack := [VUserdata C, VUserdata A]\<rparr>))
             = returned (bufflib_equal (L\<lparr>stack := [VUserdata A, VUserdata C]\<rparr>))"
proof -
  from A C obtain ra rc where ra: "buffer_at L A = Some ra" and rc: "buffer_at L C = Some rc" by blast
  from wf_content[OF wf ra] obtain sa where sa: "content L A = Some sa" by blast
  from wf_content[OF wf rc] obtain sc where sc: "content L C = Some sc" by blast
  have eq: "returned (bufflib_equal (L\<lparr>stack := [VUserdata X, VUserdata Y]\<rparr>)) = Some (VBoolean (sx = sy))"
    if "content L X = Some sx" "content L Y = Some sy" for X Y sx sy
  proof -
    let ?L = "L\<lparr>stack := [VUserdata X, VUserdata Y]\<rparr>"
    have i: "index2value ?L 1 = Some (VUserdata X)" "index2value ?L 2 = Some (VUserdata Y)"
      by (simp_all add: index2value_def lua_gettop_def)
    have c: "content ?L X = Some sx" "content ?L Y = Some sy"
      using that by (simp_all add: content_stack)
    show ?thesis
      by (simp add: bufflib_equal_content[OF i c] returned_def index2value_push_top)
  qed
  show ?thesis
    using tostring_returned[OF sa] tostring_returned[OF sc] eq[OF sa sc] eq[OF sa sa] eq[OF sc sa]
    by auto
qed

theorem equal_agrees_with_tostring_witness:
  "wf_heap ex_two \<and> buffer_at ex_two 0 \<noteq> None \<and> buffer_at ex_two 1 \<noteq> None \<and>
   returned (bufflib_tostring (ex_two\<lparr>stack := [VUserdata 0]\<rparr>)) = Some (VString ''ab'') \<and>
   returned (bufflib_tostring (ex_two\<lparr>stack := [VUserdata 1]\<rparr>)) = Some (VString ''abx'') \<and>
   returned (bufflib_equal (ex_two\<lparr>stack := [VUserdata 0, VUserdata 1]\<rparr>)) = Some (VBoolean False) \<and>
   returned (bufflib_equal (ex_two\<lparr>stack := [VUserdata 0, VUserdata 0]\<rparr>)) = Some (VBoolean True)"
proof -
  have wf: "wf_heap ex_two" by code_simp
  have A: "buffer_at ex_two 0 \<noteq> None" and C: "buffer_at ex_two 1 \<noteq> None" by code_simp+
  have s: "returned (bufflib_tostring (ex_two\<lparr>stack := [VUserdata 0]\<rparr>)) = Some (VString ''ab'')"
    "returned (bufflib_tostring (ex_two\<lparr>stack := [VUserdata 1]\<rparr>)) = Some (VString ''abx'')"
    by code_simp+
  from equal_agrees_with_tostring [OF wf A C] s wf A C
  show ?thesis by auto
qed

subsection \<open>Concatenation\<close>

text \<open>
  C4. \<open>bufflib_concat\<close> tests \<open>arg1IsBuffer && arg1IsBuffer\<close>, so it takes the branch for
  two Buffers whenever the first operand is a Buffer. With a Buffer that holds \<open>ab\<close> as
  the first operand and the string \<open>x\<close> as the second, it makes a new Buffer (at address
  1, where the heap held nothing before) with the contents \<open>abx\<close> and returns that one;
  the Buffer it was given still holds \<open>ab\<close>.
\<close>

theorem concat_buffer_string_makes_new_buffer:
  "buffer_at ex_concat 1 = None \<and>
   returned (bufflib_concat ex_concat) = Some (VUserdata 1) \<and>
   content (final_state (bufflib_concat ex_concat)) 1 = Some ''abx'' \<and>
   content ex_concat 0 = Some ''ab'' \<and>
   content (final_state (bufflib_concat ex_concat)) 0 = Some ''ab''"
  by code_simp

subsection \<open>The invariant\<close>

text \<open>
  C9. Each function of the module that works on Buffers (\<open>new\<close>, \<open>add\<close>, \<open>addsep\<close>,
  \<open>concat\<close>, \<open>reset\<close>, and the readers \<open>tostring\<close>, \<open>length\<close> and \<open>equal\<close>) keeps the
  invariant of the heap, in the state it leaves when it returns and in the state it
  leaves when it raises an error. In particular every Buffer has \<open>n \<le> size\<close> there
  (\<open>n\<close> is unsigned, so \<open>0 \<le> n\<close> holds by its type).
\<close>

theorem operations_keep_invariant:
  assumes wf: "wf_heap L"
    and f: "f = bufflib_newbuffer \<or> f = bufflib_add \<or> f = bufflib_addsep \<or> f = bufflib_concat \<or>
            f = bufflib_reset \<or> f = bufflib_tostring \<or> f = bufflib_len \<or> f = bufflib_equal"
  shows "wf_heap (final_state (f L)) \<and>
         (\<forall>a r. buffer_at (final_state (f L)) a = Some r \<longrightarrow> n r \<le> sizeB r \<and> 0 \<le> unat (n r))"
proof -
  have "wf_heap (final_state (f L))"
    using f bufflib_newbuffer_wf[OF wf] bufflib_add_wf[OF wf] bufflib_addsep_wf[OF wf]
      bufflib_concat_wf[OF wf] bufflib_reset_wf[OF wf] bufflib_readers_wf[OF wf]
    by (elim disjE) simp_all
  then show ?thesis using wf_heap_le by auto
qed

theorem operations_keep_invariant_witness:
  "wf_heap ex_add \<and> wf_heap (final_state (bufflib_add ex_add)) \<and>
   map_option n (buffer_at (final_state (bufflib_add ex_add)) 0) = Some 14 \<and>
   map_option sizeB (buffer_at (final_state (bufflib_add ex_add)) 0) = Some 16 \<and>
   wf_heap (final_state (bufflib_newbuffer ex_add)) \<and>
   raised (bufflib_len (ex_host\<lparr>stack := [VNil]\<rparr>)) = Some (TypeError 1) \<and>
   wf_heap (final_state (bufflib_len (ex_host\<lparr>stack := [VNil]\<rparr>)))"
proof -
  have wf: "wf_heap ex_add" by code_simp
  have wf0: "wf_heap (ex_host\<lparr>stack := [VNil]\<rparr>)" by code_simp
  have v: "map_option n (buffer_at (final_state (bufflib_add ex_add)) 0) = Some 14"
    "map_option sizeB (buffer_at (final_state (bufflib_add ex_add)) 0) = Some 16"
    "raised (bufflib_len (ex_host\<lparr>stack := [VNil]\<rparr>)) = Some (TypeError 1)"
    by code_simp+
  from operations_keep_invariant [OF wf, of bufflib_add]
    operations_keep_invariant [OF wf, of bufflib_newbuffer]
    operations_keep_invariant [OF wf0, of bufflib_len] wf v
  show ?thesis by simp
qed

subsection \<open>Method lookup\<close>

text \<open>
  C8, as the claim has it, on a name with a zero byte. In the example state the name
  \<open>s_len\<close>, zero byte, \<open>x\<close> is not a key of the metatable, it starts with \<open>s_\<close>, and
  the table \<open>string\<close> has no function at the rest of it. The lookup does not return
  nil: \<open>luaL_checkstring\<close> gives the name as a C string, which ends at the zero byte, so
  the lookup is that of \<open>s_len\<close> and returns the adapter at address 5.
\<close>

theorem index_zero_byte_counterexample:
  "field ex_lookup 1 ex_zero_name = None \<and>
   starts_with STRINGPREFIX ex_zero_name \<and>
   string_function ex_lookup (drop STRINGPREFIXLEN ex_zero_name) = None \<and>
   raised (bufflib_index (ex_index ex_zero_name)) = None \<and>
   returned (bufflib_index (ex_index ex_zero_name)) = Some (VFunction 5)"
  by code_simp

text \<open>
  C8, for the name as \<open>bufflib_index\<close> reads it. The lookup is the call the host makes
  for \<open>buffer[name]\<close>: the Buffer and the name on the stack. The metatable of the
  Buffers and the module table at \<open>_LOADED.bufflib\<close> are tables, and the global
  \<open>string\<close>, if it is a table value, is a table of the heap. The key is the name up to
  its first zero byte (the whole name when it has none), and the metatable has nothing
  at the key.

  If the key starts with \<open>s_\<close> and the table \<open>string\<close> has a function at the rest of the
  key, the lookup returns a new closure, the one object it adds to the heap, whose
  upvalue is that function; the metatable and the module table are as before but for the
  key, where both now have the closure. A lookup of the same name in the state this
  leaves returns the same closure and leaves the heap as it is, whatever the globals hold
  by then.

  If the key does not start with \<open>s_\<close>, or the table \<open>string\<close> has no function at the rest
  of the key, the lookup returns nil and the heap, the registry and the globals are as
  before.
\<close>

theorem index_installs_adapter:
  fixes L :: "('w::len) state"
  assumes st: "stack L = [VUserdata a, VString name]"
    and buf: "buffer_at L a \<noteq> None"
    and mt: "buffer_metatable L = Some mt"
    and md: "module_table L = Some lib"
    and sok: "table_value_ok L (globals L ''string'')"
    and key: "key = c_str name"
    and miss: "field L mt key = None"
  shows "(starts_with STRINGPREFIX key \<and> string_function L (drop STRINGPREFIXLEN key) = Some fn \<longrightarrow>
            raised (bufflib_index L) = None \<and>
            returned (bufflib_index L) = Some (VFunction (length (heap L))) \<and>
            length (heap (final_state (bufflib_index L))) = Suc (length (heap L)) \<and>
            obj_at (final_state (bufflib_index L)) (length (heap L))
              = Some (OStringop (VFunction fn)) \<and>
            field (final_state (bufflib_index L)) mt
              = (field L mt)(key \<mapsto> VFunction (length (heap L))) \<and>
            field (final_state (bufflib_index L)) lib
              = (field L lib)(key \<mapsto> VFunction (length (heap L))) \<and>
            returned (bufflib_index ((final_state (bufflib_index L))\<lparr>stack := stack L, globals := g\<rparr>))
              = Some (VFunction (length (heap L))) \<and>
            heap (final_state
                   (bufflib_index ((final_state (bufflib_index L))\<lparr>stack := stack L, globals := g\<rparr>)))
              = heap (final_state (bufflib_index L))) \<and>
         (\<not> starts_with STRINGPREFIX key \<or> string_function L (drop STRINGPREFIXLEN key) = None \<longrightarrow>
            raised (bufflib_index L) = None \<and>
            returned (bufflib_index L) = Some VNil \<and>
            heap (final_state (bufflib_index L)) = heap L \<and>
            registry (final_state (bufflib_index L)) = registry L \<and>
            globals (final_state (bufflib_index L)) = globals L)"
proof (intro conjI impI)
  assume "\<not> starts_with STRINGPREFIX key \<or> string_function L (drop STRINGPREFIXLEN key) = None"
  then have "\<not> starts_with STRINGPREFIX (c_str name) \<or>
             string_function L (drop STRINGPREFIXLEN (c_str name)) = None"
    by (simp add: key)
  from index_nil[OF st buf mt miss[unfolded key] sok this]
  obtain xs where r: "bufflib_index L = Inr (1, L\<lparr>stack := xs @ [VNil]\<rparr>)" ..
  show "raised (bufflib_index L) = None" by (simp add: r raised_def)
  show "returned (bufflib_index L) = Some VNil"
    by (simp add: r returned_def index2value_def lua_gettop_def)
  show "heap (final_state (bufflib_index L)) = heap L" by (simp add: r final_state_def)
  show "registry (final_state (bufflib_index L)) = registry L" by (simp add: r final_state_def)
  show "globals (final_state (bufflib_index L)) = globals L" by (simp add: r final_state_def)
next
  assume A: "starts_with STRINGPREFIX key \<and> string_function L (drop STRINGPREFIXLEN key) = Some fn"
  let ?c = "length (heap L)"
  let ?cl = "VFunction ?c"
  from mt obtain m where m: "table_of L mt = Some m"
    by (auto simp: buffer_metatable_def split: option.splits lua_value.splits if_splits)
  from md obtain bm where bm: "table_of L lib = Some bm"
    by (auto simp: module_table_def split: option.splits lua_value.splits if_splits)
  let ?H = "(heap L @ [OStringop (VFunction fn)])[mt := OTable (m(key \<mapsto> ?cl)),
              lib := OTable (bm(key \<mapsto> ?cl))]"
  let ?L' = "L\<lparr>stack := [VUserdata a, VString name, VTable mt, ?cl], heap := ?H\<rparr>"
  have r: "bufflib_index L = Inr (1, ?L')"
    using index_install[OF st buf mt miss[unfolded key] _ _ md m bm] A key by simp
  have fs: "final_state (bufflib_index L) = ?L'" by (simp add: r final_state_def)
  have mtl: "mt < ?c" "heap L ! mt = OTable m" using m by (simp_all add: table_of_Some_iff)
  have libl: "lib < ?c" "heap L ! lib = OTable bm" using bm by (simp_all add: table_of_Some_iff)
  have same: "lib = mt \<Longrightarrow> bm = m" using mtl libl by simp
  have tm: "table_of ?L' mt = Some (m(key \<mapsto> ?cl))"
    using mtl libl same by (auto simp: table_of_Some_iff nth_list_update)
  have tb: "table_of ?L' lib = Some (bm(key \<mapsto> ?cl))"
    using libl by (simp add: table_of_Some_iff)
  show "raised (bufflib_index L) = None" by (simp add: r raised_def)
  show "returned (bufflib_index L) = Some ?cl"
    by (simp add: r returned_def index2value_def lua_gettop_def)
  show "length (heap (final_state (bufflib_index L))) = Suc ?c" by (simp add: fs)
  show "obj_at (final_state (bufflib_index L)) ?c = Some (OStringop (VFunction fn))"
    using mtl libl by (simp add: fs obj_at_def nth_list_update nth_append)
  show "field (final_state (bufflib_index L)) mt = (field L mt)(key \<mapsto> ?cl)"
    unfolding fs by (rule ext) (simp add: field_def tm m)
  show "field (final_state (bufflib_index L)) lib = (field L lib)(key \<mapsto> ?cl)"
    unfolding fs by (rule ext) (simp add: field_def tb bm)
  let ?L2 = "?L'\<lparr>stack := stack L, globals := g\<rparr>"
  have st2: "stack ?L2 = [VUserdata a, VString name]" by (simp add: st)
  from buf obtain r0 where r0: "a < ?c" "heap L ! a = OBuffer r0"
    by (auto simp: buffer_at_Some_iff)
  have "a \<noteq> mt" "a \<noteq> lib" using r0 mtl libl by auto
  then have buf2: "buffer_at ?L2 a \<noteq> None"
    using r0 by (simp add: buffer_at_Some_iff nth_append)
  have t2: "table_of ?L2 mt = Some (m(key \<mapsto> ?cl))"
    using mtl libl same by (auto simp: table_of_Some_iff nth_list_update)
  have mt2: "buffer_metatable ?L2 = Some mt"
    using mt t2 by (auto simp: buffer_metatable_def split: option.splits lua_value.splits if_splits)
  have f2: "field ?L2 mt (c_str name) = Some ?cl"
    unfolding field_def t2 by (simp add: key)
  have r2: "bufflib_index ?L2 = Inr (1, ?L2\<lparr>stack := [VUserdata a, VString name, VTable mt, ?cl]\<rparr>)"
    by (rule index_hit[OF st2 buf2 mt2 f2]) simp
  show "returned (bufflib_index ((final_state (bufflib_index L))\<lparr>stack := stack L, globals := g\<rparr>))
          = Some ?cl"
    unfolding fs r2 by (simp add: returned_def index2value_def lua_gettop_def)
  show "heap (final_state
               (bufflib_index ((final_state (bufflib_index L))\<lparr>stack := stack L, globals := g\<rparr>)))
          = heap (final_state (bufflib_index L))"
    unfolding fs r2 by (simp add: final_state_def)
qed

theorem index_installs_adapter_witness:
  "stack (ex_index ''s_rep'') = [VUserdata 0, VString ''s_rep''] \<and>
   buffer_at (ex_index ''s_rep'') 0 \<noteq> None \<and>
   buffer_metatable (ex_index ''s_rep'') = Some 1 \<and>
   module_table (ex_index ''s_rep'') = Some 4 \<and>
   table_value_ok (ex_index ''s_rep'') (globals (ex_index ''s_rep'') ''string'') \<and>
   ''s_rep'' = c_str ''s_rep'' \<and>
   field (ex_index ''s_rep'') 1 ''s_rep'' = None \<and>
   starts_with STRINGPREFIX ''s_rep'' \<and>
   string_function (ex_index ''s_rep'') (drop STRINGPREFIXLEN ''s_rep'') = Some 7 \<and>
   length (heap (ex_index ''s_rep'')) = 8 \<and>
   returned (bufflib_index (ex_index ''s_rep'')) = Some (VFunction 8) \<and>
   obj_at (final_state (bufflib_index (ex_index ''s_rep''))) 8 = Some (OStringop (VFunction 7)) \<and>
   field (final_state (bufflib_index (ex_index ''s_rep''))) 1 ''s_rep'' = Some (VFunction 8) \<and>
   field (final_state (bufflib_index (ex_index ''s_rep''))) 4 ''s_rep'' = Some (VFunction 8) \<and>
   returned (bufflib_index ((final_state (bufflib_index (ex_index ''s_rep'')))
                              \<lparr>stack := stack (ex_index ''s_rep''), globals := Map.empty\<rparr>))
     = Some (VFunction 8) \<and>
   stack (ex_index ''size'') = [VUserdata 0, VString ''size''] \<and>
   buffer_at (ex_index ''size'') 0 \<noteq> None \<and>
   buffer_metatable (ex_index ''size'') = Some 1 \<and>
   module_table (ex_index ''size'') = Some 4 \<and>
   table_value_ok (ex_index ''size'') (globals (ex_index ''size'') ''string'') \<and>
   ''size'' = c_str ''size'' \<and>
   field (ex_index ''size'') 1 ''size'' = None \<and>
   \<not> starts_with STRINGPREFIX ''size'' \<and>
   returned (bufflib_index (ex_index ''size'')) = Some VNil \<and>
   heap (final_state (bufflib_index (ex_index ''size''))) = heap (ex_index ''size'') \<and>
   stack (ex_index ''s_nope'') = [VUserdata 0, VString ''s_nope''] \<and>
   buffer_at (ex_index ''s_nope'') 0 \<noteq> None \<and>
   buffer_metatable (ex_index ''s_nope'') = Some 1 \<and>
   module_table (ex_index ''s_nope'') = Some 4 \<and>
   table_value_ok (ex_index ''s_nope'') (globals (ex_index ''s_nope'') ''string'') \<and>
   ''s_nope'' = c_str ''s_nope'' \<and>
   field (ex_index ''s_nope'') 1 ''s_nope'' = None \<and>
   string_function (ex_index ''s_nope'') (drop STRINGPREFIXLEN ''s_nope'') = None \<and>
   returned (bufflib_index (ex_index ''s_nope'')) = Some VNil \<and>
   heap (final_state (bufflib_index (ex_index ''s_nope''))) = heap (ex_index ''s_nope'')"
proof -
  have a: "stack (ex_index ''s_rep'') = [VUserdata 0, VString ''s_rep'']"
    "buffer_at (ex_index ''s_rep'') 0 \<noteq> None"
    "buffer_metatable (ex_index ''s_rep'') = Some 1"
    "module_table (ex_index ''s_rep'') = Some 4"
    "table_value_ok (ex_index ''s_rep'') (globals (ex_index ''s_rep'') ''string'')"
    "''s_rep'' = c_str ''s_rep''"
    "field (ex_index ''s_rep'') 1 ''s_rep'' = None"
    by code_simp+
  have a': "starts_with STRINGPREFIX ''s_rep''"
    "string_function (ex_index ''s_rep'') (drop STRINGPREFIXLEN ''s_rep'') = Some 7"
    "length (heap (ex_index ''s_rep'')) = 8"
    by code_simp+
  have b: "stack (ex_index ''size'') = [VUserdata 0, VString ''size'']"
    "buffer_at (ex_index ''size'') 0 \<noteq> None"
    "buffer_metatable (ex_index ''size'') = Some 1"
    "module_table (ex_index ''size'') = Some 4"
    "table_value_ok (ex_index ''size'') (globals (ex_index ''size'') ''string'')"
    "''size'' = c_str ''size''"
    "field (ex_index ''size'') 1 ''size'' = None"
    by code_simp+
  have b': "\<not> starts_with STRINGPREFIX ''size''" by code_simp
  have c: "stack (ex_index ''s_nope'') = [VUserdata 0, VString ''s_nope'']"
    "buffer_at (ex_index ''s_nope'') 0 \<noteq> None"
    "buffer_metatable (ex_index ''s_nope'') = Some 1"
    "module_table (ex_index ''s_nope'') = Some 4"
    "table_value_ok (ex_index ''s_nope'') (globals (ex_index ''s_nope'') ''string'')"
    "''s_nope'' = c_str ''s_nope''"
    "field (ex_index ''s_nope'') 1 ''s_nope'' = None"
    by code_simp+
  have c': "string_function (ex_index ''s_nope'') (drop STRINGPREFIXLEN ''s_nope'') = None"
    by code_simp
  note ta = index_installs_adapter [OF a, of 7 Map.empty, THEN conjunct1, rule_format, OF conjI,
      OF a'(1) a'(2), unfolded a'(3)]
  note tb = index_installs_adapter [OF b, of 0 Map.empty, THEN conjunct2, rule_format, OF disjI1,
      OF b']
  note tc = index_installs_adapter [OF c, of 0 Map.empty, THEN conjunct2, rule_format, OF disjI2,
      OF c']
  have fa: "field (final_state (bufflib_index (ex_index ''s_rep''))) 1 ''s_rep'' = Some (VFunction 8)"
    "field (final_state (bufflib_index (ex_index ''s_rep''))) 4 ''s_rep'' = Some (VFunction 8)"
    using ta by simp_all
  show ?thesis
    using a a' b b' c c' ta tb tc fa by simp
qed

end
